theory Spec2Isabelle
  imports Complex_Main
begin

section \<open>PyCI additional routines (src/pyci/routines.py)\<close>

text \<open>
  A shallow embedding of the module \<^verbatim>\<open>pyci.routines\<close>. Python exceptions are values of
  type \<open>error\<close>; a function that may raise returns \<open>error + 'a\<close> with \<open>Inl\<close> the
  exception. Double precision numbers are modelled by \<open>real\<close> (exact arithmetic), Python
  and NumPy integers by \<open>int\<close>, NumPy arrays by lists (a matrix is a list of rows).
\<close>

subsection \<open>Python values, exceptions and indexing\<close>

datatype error =
    TypeError string
  | ValueError string
  | IndexError string
  | AttributeError string
  | NotImplementedError

text \<open>
  Python indexing of a sequence of length \<open>n\<close>: an index \<open>i\<close> with \<open>0 \<le> i < n\<close> is
  itself, one with \<open>-n \<le> i < 0\<close> counts from the end, anything else raises IndexError.
\<close>

definition py_index :: "nat \<Rightarrow> int \<Rightarrow> nat option" where
  "py_index n i =
     (if 0 \<le> i \<and> i < int n then Some (nat i)
      else if - int n \<le> i \<and> i < 0 then Some (nat (int n + i))
      else None)"

definition getitem :: "'a list \<Rightarrow> int \<Rightarrow> error + 'a" where
  "getitem xs i =
     (case py_index (length xs) i of
        None \<Rightarrow> Inl (IndexError ''index out of bounds'')
      | Some k \<Rightarrow> Inr (xs ! k))"

definition setitem :: "'a list \<Rightarrow> int \<Rightarrow> 'a \<Rightarrow> error + 'a list" where
  "setitem xs i v =
     (case py_index (length xs) i of
        None \<Rightarrow> Inl (IndexError ''index out of bounds'')
      | Some k \<Rightarrow> Inr (xs[k := v]))"

subsection \<open>The sparse operator (external collaborator)\<close>

text \<open>
  \<^verbatim>\<open>pyci.sparse_op\<close> is implemented outside this module. The routines only read its
  attributes and call its methods, so the operator is a record of exactly those:
  \<open>shape\<close>, \<open>ecore\<close>, \<open>get_element\<close>, the product \<open>matvec\<close> (the operator used as a
  callable) and the CEPA0 variants.
\<close>

record sparse_op =
  shape :: "nat \<times> nat"
  ecore :: real
  get_element :: "int \<Rightarrow> int \<Rightarrow> real"
  matvec :: "real list \<Rightarrow> real list"
  matvec_cepa0 :: "real list \<Rightarrow> int \<Rightarrow> real list"
  rmatvec_cepa0 :: "real list \<Rightarrow> int \<Rightarrow> real list"
  rhs_cepa0 :: "int \<Rightarrow> real list"

text \<open>
  The positional arguments \<^verbatim>\<open>*args\<close> of \<^verbatim>\<open>solve\<close> and \<^verbatim>\<open>solve_cepa0\<close>: a sparse
  operator, or any other object (a Hamiltonian, a wave function), named by a tag.
\<close>

datatype arg = ArgOp sparse_op | ArgObj string

text \<open>
  \<^verbatim>\<open>
    if len(args) == 1:
        op = args[0]
    elif len(args) == 2:
        op = pyci.sparse_op(*args)
    else:
        raise ValueError("must pass `ham, wfn` or `op`")
  \<close>
  The constructor \<^verbatim>\<open>pyci.sparse_op\<close> is external: it is the parameter \<open>mk_op\<close>. A
  single argument that is not an operator has no attribute \<^verbatim>\<open>shape\<close>.
\<close>

definition handle_inputs :: "(arg \<Rightarrow> arg \<Rightarrow> error + sparse_op) \<Rightarrow> arg list \<Rightarrow> error + sparse_op" where
  "handle_inputs mk_op args =
     (if length args = 1 then
        (case args ! 0 of
           ArgOp op \<Rightarrow> Inr op
         | ArgObj _ \<Rightarrow> Inl (AttributeError ''shape''))
      else if length args = 2 then mk_op (args ! 0) (args ! 1)
      else Inl (ValueError ''must pass `ham, wfn` or `op`''))"

subsection \<open>solve\<close>

text \<open>
  \<^verbatim>\<open>np.zeros(n)\<close> for an integer \<open>n\<close>: a negative dimension raises ValueError.
\<close>

definition np_zeros :: "int \<Rightarrow> error + real list" where
  "np_zeros n =
     (if n < 0 then Inl (ValueError ''negative dimensions are not allowed'')
      else Inr (replicate (nat n) 0))"

text \<open>
  The iterative eigensolver \<^verbatim>\<open>scipy.sparse.linalg.eigsh\<close> is external; it is a parameter
  taking the operator's product and shape, \<open>k\<close>, \<open>v0\<close>, \<open>ncv\<close>, \<open>maxiter\<close> and \<open>tol\<close>
  (\<^verbatim>\<open>which="SA"\<close> is fixed), and returning the eigenvalues and the matrix whose columns
  are the eigenvectors, or raising.
\<close>

type_synonym eigsh_fn =
  "(real list \<Rightarrow> real list) \<Rightarrow> nat \<times> nat \<Rightarrow> int \<Rightarrow> real list \<Rightarrow> int option \<Rightarrow> int \<Rightarrow> real
     \<Rightarrow> error + (real list \<times> real list list)"

definition solve ::
  "eigsh_fn \<Rightarrow> (arg \<Rightarrow> arg \<Rightarrow> error + sparse_op) \<Rightarrow> arg list \<Rightarrow> int \<Rightarrow> real list option
     \<Rightarrow> int option \<Rightarrow> int \<Rightarrow> real \<Rightarrow> error + (real list \<times> real list list)" where
  "solve eigsh mk_op args n c0 ncv maxiter tol =
     (case handle_inputs mk_op args of
        Inl e \<Rightarrow> Inl e
      | Inr op \<Rightarrow>
          if snd (shape op) = 1 then
            Inr ([get_element op 0 0 + ecore op], [[1]])
          else
            (case (case c0 of
                     None \<Rightarrow>
                       (case np_zeros (int (snd (shape op))) of
                          Inl e \<Rightarrow> Inl e
                        | Inr z \<Rightarrow> setitem z 0 1)
                   | Some c \<Rightarrow>
                       (case np_zeros (int (snd (shape op)) - int (length c)) of
                          Inl e \<Rightarrow> Inl e
                        | Inr z \<Rightarrow> Inr (c @ z))) of
               Inl e \<Rightarrow> Inl e
             | Inr v0 \<Rightarrow>
                 (case eigsh (matvec op) (shape op) n v0 ncv maxiter tol of
                    Inl e \<Rightarrow> Inl e
                  | Inr (es, cs) \<Rightarrow> Inr (map (\<lambda>x. x + ecore op) es, transpose cs))))"

subsection \<open>solve_cepa0\<close>

text \<open>
  In-place NumPy arithmetic \<^verbatim>\<open>xs += ys\<close> and \<^verbatim>\<open>xs -= ys\<close> on one-dimensional arrays:
  \<open>ys\<close> must have the length of \<open>xs\<close> or length one (it is then broadcast); otherwise
  ValueError.
\<close>

definition np_inplace :: "(real \<Rightarrow> real \<Rightarrow> real) \<Rightarrow> real list \<Rightarrow> real list \<Rightarrow> error + real list" where
  "np_inplace f xs ys =
     (if length ys = length xs then Inr (map2 f xs ys)
      else if length ys = 1 then Inr (map (\<lambda>x. f x (hd ys)) xs)
      else Inl (ValueError ''operands could not be broadcast together''))"

text \<open>
  \<^verbatim>\<open>scipy.sparse.linalg.LinearOperator(matvec=..., rmatvec=..., shape=...)\<close>
\<close>

record linear_operator =
  lo_matvec :: "real list \<Rightarrow> real list"
  lo_rmatvec :: "real list \<Rightarrow> real list"
  lo_shape :: "nat \<times> nat"

text \<open>
  The linear solvers \<^verbatim>\<open>scipy.sparse.linalg.lsqr\<close> and \<^verbatim>\<open>scipy.sparse.linalg.lgmres\<close> are
  external. A solver is modelled by the names of the parameters of its signature
  (neither solver takes \<^verbatim>\<open>**kwargs\<close>) and by what it computes from the operator, the
  right-hand side and the keyword arguments: the first component of its result, which
  is all that \<^verbatim>\<open>solve_cepa0\<close> reads. A Python call that passes a keyword the signature
  does not have raises TypeError before the function body runs.
\<close>

datatype pyval = PyInt int | PyFloat real

record scipy_solver =
  parameters :: "string list"
  run :: "linear_operator \<Rightarrow> real list \<Rightarrow> (string \<times> pyval) list \<Rightarrow> error + real list"

definition py_call ::
  "scipy_solver \<Rightarrow> linear_operator \<Rightarrow> real list \<Rightarrow> (string \<times> pyval) list \<Rightarrow> error + real list" where
  "py_call f A b kwargs =
     (case filter (\<lambda>k. k \<notin> set (parameters f)) (map fst kwargs) of
        [] \<Rightarrow> run f A b kwargs
      | k # _ \<Rightarrow> Inl (TypeError (''got an unexpected keyword argument '' @ k)))"

text \<open>
  The parameters of \<^verbatim>\<open>lsqr(A, b, damp=0.0, atol=1e-06, btol=1e-06, conlim=1e8,
  iter_lim=None, show=False, calc_var=False, x0=None)\<close> as SciPy documents them.
\<close>

definition scipy_lsqr_keywords :: "string list" where
  "scipy_lsqr_keywords =
     [''A'', ''b'', ''damp'', ''atol'', ''btol'', ''conlim'', ''iter_lim'', ''show'',
      ''calc_var'', ''x0'']"

text \<open>
  Source lines 379 to 390: the initial guess, the left-hand side and the right-hand
  side. \<^verbatim>\<open>c0 / c0[refind]\<close> makes a new array. (A zero \<^verbatim>\<open>c0[refind]\<close> gives \<open>inf\<close> or
  \<open>nan\<close> entries in NumPy and \<open>0\<close> in the reals; the reference entry is overwritten in
  the next line in either case.)
\<close>

definition cepa0_setup ::
  "sparse_op \<Rightarrow> real option \<Rightarrow> real list option \<Rightarrow> int
     \<Rightarrow> error + (real list \<times> linear_operator \<times> real list)" where
  "cepa0_setup op e0 c0 refind =
     (case (case c0 of
              None \<Rightarrow> np_zeros (int (snd (shape op)))
            | Some c \<Rightarrow>
                (case getitem c refind of
                   Inl e \<Rightarrow> Inl e
                 | Inr d \<Rightarrow> Inr (map (\<lambda>x. x / d) c))) of
        Inl e \<Rightarrow> Inl e
      | Inr c1 \<Rightarrow>
          (case setitem c1 refind (case e0 of None \<Rightarrow> get_element op refind refind | Some v \<Rightarrow> v) of
             Inl e \<Rightarrow> Inl e
           | Inr c2 \<Rightarrow>
               (let lhs = \<lparr>lo_matvec = (\<lambda>x. matvec_cepa0 op x refind),
                           lo_rmatvec = (\<lambda>x. rmatvec_cepa0 op x refind),
                           lo_shape = shape op\<rparr> in
                case np_inplace (-) (rhs_cepa0 op refind) (matvec_cepa0 op c2 refind) of
                  Inl e \<Rightarrow> Inl e
                | Inr rhs \<Rightarrow> Inr (c2, lhs, rhs))))"

text \<open>
  Source lines 392 to 398: the solve, and \<^verbatim>\<open>c = result[0]; c += c0\<close>. The value is the
  combined coefficient vector, the solved correction plus the initial guess.
\<close>

definition cepa0_combined ::
  "scipy_solver \<Rightarrow> scipy_solver \<Rightarrow> sparse_op \<Rightarrow> real option \<Rightarrow> real list option \<Rightarrow> int
     \<Rightarrow> int \<Rightarrow> real \<Rightarrow> bool \<Rightarrow> error + real list" where
  "cepa0_combined lsqr lgmres op e0 c0 refind maxiter tol lstsq =
     (case cepa0_setup op e0 c0 refind of
        Inl e \<Rightarrow> Inl e
      | Inr (c2, lhs, rhs) \<Rightarrow>
          (case (if lstsq
                 then py_call lsqr lhs rhs
                        [(''iter_lime'', PyInt maxiter), (''btol'', PyFloat tol), (''atol'', PyFloat tol)]
                 else py_call lgmres lhs rhs
                        [(''maxiter'', PyInt maxiter), (''tol'', PyFloat tol), (''atol'', PyFloat tol)]) of
             Inl e \<Rightarrow> Inl e
           | Inr c \<Rightarrow> np_inplace (+) c c2))"

text \<open>
  Source lines 399 to 401: \<^verbatim>\<open>e = np.full(1, c[refind] + op.ecore); c[refind] = 1;
  return e, c[None, :]\<close>, after the input handling of lines 373 to 378.
\<close>

definition solve_cepa0 ::
  "scipy_solver \<Rightarrow> scipy_solver \<Rightarrow> (arg \<Rightarrow> arg \<Rightarrow> error + sparse_op) \<Rightarrow> arg list
     \<Rightarrow> real option \<Rightarrow> real list option \<Rightarrow> int \<Rightarrow> int \<Rightarrow> real \<Rightarrow> bool
     \<Rightarrow> error + (real list \<times> real list list)" where
  "solve_cepa0 lsqr lgmres mk_op args e0 c0 refind maxiter tol lstsq =
     (case handle_inputs mk_op args of
        Inl e \<Rightarrow> Inl e
      | Inr op \<Rightarrow>
          (case cepa0_combined lsqr lgmres op e0 c0 refind maxiter tol lstsq of
             Inl e \<Rightarrow> Inl e
           | Inr c \<Rightarrow>
               (case getitem c refind of
                  Inl e \<Rightarrow> Inl e
                | Inr v \<Rightarrow>
                    (case setitem c refind 1 of
                       Inl e \<Rightarrow> Inl e
                     | Inr c' \<Rightarrow> Inr ([v + ecore op], [c'])))))"

subsection \<open>The wave function (external collaborator)\<close>

text \<open>
  The wave function classes are implemented outside this module. The routines read the
  attributes \<open>nbasis\<close>, \<open>nocc_up\<close>, \<open>nocc_dn\<close> (non-negative counts), \<open>nocc\<close> and
  \<open>nvir_up\<close>, test the class of the object, and call \<^verbatim>\<open>add_occs\<close> with an array of
  occupations. How the container encodes and stores a determinant is not part of this
  module, so the model keeps, in \<open>dets\<close>, the arrays handed to \<^verbatim>\<open>add_occs\<close> in the order
  of the calls: a one-dimensional array of indices, or a two-dimensional one (a list of
  rows).
\<close>

datatype wfn_kind = Doci | Fullci | Genci | Other_wfn

datatype occs_array = Occs1 "int list" | Occs2 "int list list"

record wavefunction =
  kind :: wfn_kind
  nbasis :: nat
  nocc_up :: nat
  nocc_dn :: nat
  dets :: "occs_array list"

definition nocc :: "wavefunction \<Rightarrow> nat" where
  "nocc w = nocc_up w + nocc_dn w"

definition nvir_up :: "wavefunction \<Rightarrow> int" where
  "nvir_up w = int (nbasis w) - int (nocc_up w)"

definition add_occs :: "wavefunction \<Rightarrow> occs_array \<Rightarrow> wavefunction" where
  "add_occs w a = w\<lparr>dets := dets w @ [a]\<rparr>"

subsection \<open>NumPy helpers used by the odometer\<close>

text \<open>\<^verbatim>\<open>xs[idx]\<close> for an index array: every index is looked up as Python does.\<close>

fun np_take :: "'a list \<Rightarrow> int list \<Rightarrow> error + 'a list" where
  "np_take xs [] = Inr []"
| "np_take xs (i # idx) =
     (case getitem xs i of
        Inl e \<Rightarrow> Inl e
      | Inr v \<Rightarrow>
          (case np_take xs idx of
             Inl e \<Rightarrow> Inl e
           | Inr vs \<Rightarrow> Inr (v # vs)))"

text \<open>\<^verbatim>\<open>np.max\<close> raises ValueError on an empty array.\<close>

fun np_max :: "real list \<Rightarrow> error + real" where
  "np_max [] = Inl (ValueError ''zero-size array to reduction operation maximum'')"
| "np_max (x # xs) = Inr (fold max xs x)"

text \<open>
  \<^verbatim>\<open>a.reshape(2, -1)\<close> of a one-dimensional array: two rows of equal length, and
  ValueError when the size is odd.
\<close>

definition np_reshape2 :: "'a list \<Rightarrow> error + 'a list list" where
  "np_reshape2 xs =
     (if even (length xs)
      then Inr [take (length xs div 2) xs, drop (length xs div 2) xs]
      else Inl (ValueError ''cannot reshape array''))"

subsection \<open>add_gkci: the node table of mode cntsp\<close>

text \<open>
  \<^verbatim>\<open>
    nodes = list()
    shell = 1
    while len(nodes) < wfn.nbasis:
        nodes.extend([shell - 1.0] * shell ** 2)
        shell += 1
  \<close>
  The loop is \<open>cntsp_loop nbasis nodes shell\<close>, started at \<open>[]\<close> and \<open>1\<close>.
\<close>

function cntsp_loop :: "nat \<Rightarrow> real list \<Rightarrow> nat \<Rightarrow> real list" where
  "cntsp_loop nb nodes shell =
     (if length nodes < nb
      then cntsp_loop nb (nodes @ replicate (shell ^ 2) (real shell - 1)) (shell + 1)
      else nodes)"
  by pat_completeness auto
termination
proof (relation "measure (\<lambda>(nb, nodes, shell). nb - length nodes + (if shell = 0 then 1 else 0))")
  show "wf (measure (\<lambda>(nb, nodes, shell). nb - length nodes + (if shell = 0 then 1 else 0)))"
    by simp
next
  fix nb :: nat and nodes :: "real list" and shell :: nat
  assume less: "length nodes < nb"
  show "((nb, nodes @ replicate (shell ^ 2) (real shell - 1), shell + 1), (nb, nodes, shell))
      \<in> measure (\<lambda>(nb, nodes, shell). nb - length nodes + (if shell = 0 then 1 else 0))"
  proof (cases "shell = 0")
    case True
    with less show ?thesis by simp
  next
    case False
    then have "0 < shell ^ 2" by simp
    with less have "nb - (length nodes + shell ^ 2) < nb - length nodes" by arith
    with False show ?thesis by simp
  qed
qed

declare cntsp_loop.simps [simp del]

subsection \<open>The odometer algorithm\<close>

text \<open>
  The state of the \<^verbatim>\<open>while True\<close> loop: the two working arrays, the index of the
  electron being excited, and the wave function being filled.
\<close>

record odo_state =
  new_occs :: "int list"
  old_occs :: "int list"
  j_electron :: int
  wfn :: wavefunction

text \<open>How one pass through the body of a \<^verbatim>\<open>while True\<close> loop ends.\<close>

datatype 's flow = Continue 's | Break 's | Raised error 's

text \<open>
  \<^verbatim>\<open>while True: body\<close>. The loop has no bound of its own, so the model counts the passes
  allowed: \<open>None\<close> when that many passes did not reach \<^verbatim>\<open>break\<close> or an exception,
  otherwise the last state and the exception raised, if any.
\<close>

fun while_true :: "('s \<Rightarrow> 's flow) \<Rightarrow> nat \<Rightarrow> 's \<Rightarrow> ('s \<times> error option) option" where
  "while_true body 0 s = None"
| "while_true body (Suc fuel) s =
     (case body s of
        Continue s' \<Rightarrow> while_true body fuel s'
      | Break s' \<Rightarrow> Some (s', None)
      | Raised e s' \<Rightarrow> Some (s', Some e))"

text \<open>
  \<^verbatim>\<open>np.sum(nodes_s) + t * np.max(nodes_s)\<close> with \<^verbatim>\<open>nodes_s = nodes[occs]\<close>.
\<close>

definition cost :: "real list \<Rightarrow> real \<Rightarrow> int list \<Rightarrow> error + real" where
  "cost nodes t occs =
     (case np_take nodes occs of
        Inl e \<Rightarrow> Inl e
      | Inr nodes_s \<Rightarrow>
          (case np_max nodes_s of
             Inl e \<Rightarrow> Inl e
           | Inr m \<Rightarrow> Inr (sum_list nodes_s + t * m)))"

text \<open>
  \<^verbatim>\<open>np.sum(nodes_s[:-1]) * p + (t + 1) * nodes[-1] * p\<close> with \<^verbatim>\<open>nodes_s = nodes[occs]\<close>:
  the cost of the most important neglected determinant.
\<close>

definition threshold :: "real list \<Rightarrow> real \<Rightarrow> real \<Rightarrow> int list \<Rightarrow> error + real" where
  "threshold nodes t p occs =
     (case np_take nodes occs of
        Inl e \<Rightarrow> Inl e
      | Inr nodes_s \<Rightarrow>
          (case getitem nodes (- 1) of
             Inl e \<Rightarrow> Inl e
           | Inr l \<Rightarrow> Inr (sum_list (butlast nodes_s) * p + (t + 1) * l * p)))"

text \<open>
  Rejection: \<^verbatim>\<open>new_occs[:] = old_occs; j_electron -= 1\<close>.
\<close>

definition reject :: "odo_state \<Rightarrow> odo_state" where
  "reject s = s\<lparr>new_occs := old_occs s, j_electron := j_electron s - 1\<rparr>"

text \<open>
  \<^verbatim>\<open>for k in range(j + 1, hi): new_occs[k] = new_occs[j] + k - j\<close>
\<close>

definition reset_after :: "int list \<Rightarrow> int \<Rightarrow> int \<Rightarrow> error + int list" where
  "reset_after occs j hi =
     fold (\<lambda>k r. case r of
                    Inl e \<Rightarrow> Inl e
                  | Inr xs \<Rightarrow>
                      (case getitem xs j of
                         Inl e \<Rightarrow> Inl e
                       | Inr v \<Rightarrow> setitem xs k (v + k - j)))
          [j + 1..hi - 1] (Inr occs)"

text \<open>\<^verbatim>\<open>new_occs[j_electron] += 1\<close>\<close>

definition increment :: "int list \<Rightarrow> int \<Rightarrow> error + int list" where
  "increment occs j =
     (case getitem occs j of
        Inl e \<Rightarrow> Inl e
      | Inr v \<Rightarrow> setitem occs j (v + 1))"

subsubsection \<open>One spin channel\<close>

text \<open>
  The first half of the loop body (source lines 197 to 214): the bounds check on the
  last electron, then the cost test; a determinant that passes is added to the wave
  function.
\<close>

definition one_spin_test :: "real list \<Rightarrow> real \<Rightarrow> real \<Rightarrow> odo_state \<Rightarrow> error + odo_state" where
  "one_spin_test nodes t qs_neg s =
     (case getitem (new_occs s) (int (nocc_up (wfn s)) - 1) of
        Inl e \<Rightarrow> Inl e
      | Inr l \<Rightarrow>
          if l \<ge> int (nbasis (wfn s)) then Inr (reject s)
          else
            (case cost nodes t (new_occs s) of
               Inl e \<Rightarrow> Inl e
             | Inr qs \<Rightarrow>
                 if qs < qs_neg
                 then Inr (s\<lparr>wfn := add_occs (wfn s) (Occs1 (new_occs s)),
                             j_electron := int (nocc_up (wfn s)) - 1\<rparr>)
                 else Inr (reject s)))"

text \<open>
  The second half (source lines 219 to 223): record the last accepted determinant and
  excite the electron \<open>j_electron\<close>.
\<close>

definition one_spin_excite :: "odo_state \<Rightarrow> error + odo_state" where
  "one_spin_excite s =
     (let s1 = s\<lparr>old_occs := new_occs s\<rparr>; j = j_electron s1 in
      case increment (new_occs s1) j of
        Inl e \<Rightarrow> Inl e
      | Inr occs \<Rightarrow>
          if j \<noteq> int (nocc_up (wfn s1)) - 1 then
            (case reset_after occs j (int (nocc_up (wfn s1))) of
               Inl e \<Rightarrow> Inl e
             | Inr occs' \<Rightarrow> Inr (s1\<lparr>new_occs := occs'\<rparr>))
          else Inr (s1\<lparr>new_occs := occs\<rparr>))"

definition one_spin_body :: "real list \<Rightarrow> real \<Rightarrow> real \<Rightarrow> odo_state \<Rightarrow> odo_state flow" where
  "one_spin_body nodes t qs_neg s =
     (case one_spin_test nodes t qs_neg s of
        Inl e \<Rightarrow> Raised e s
      | Inr s1 \<Rightarrow>
          if j_electron s1 < 0 then Break s1
          else
            (case one_spin_excite s1 of
               Inl e \<Rightarrow> Raised e s1
             | Inr s2 \<Rightarrow> Continue s2))"

definition one_spin_init :: "wavefunction \<Rightarrow> odo_state" where
  "one_spin_init w =
     \<lparr>new_occs = map int [0..<nocc_up w], old_occs = map int [0..<nocc_up w],
      j_electron = int (nocc_up w) - 1, wfn = w\<rparr>"

definition odometer_one_spin ::
  "nat \<Rightarrow> wavefunction \<Rightarrow> real list \<Rightarrow> real \<Rightarrow> real \<Rightarrow> (wavefunction \<times> error option) option" where
  "odometer_one_spin fuel w nodes t p =
     (case threshold nodes t p (new_occs (one_spin_init w)) of
        Inl e \<Rightarrow> Some (w, Some e)
      | Inr qs_neg \<Rightarrow>
          (case while_true (one_spin_body nodes t qs_neg) fuel (one_spin_init w) of
             None \<Rightarrow> None
           | Some (s, e) \<Rightarrow> Some (wfn s, e)))"

subsubsection \<open>Two spin channels\<close>

text \<open>
  The occupations of both channels lie in one array: the first \<open>nocc_up\<close> entries are
  the spin-up channel, \<^verbatim>\<open>new_occs[: wfn.nocc_up]\<close>, the rest the spin-down channel,
  \<^verbatim>\<open>new_occs[wfn.nocc_up :]\<close>.
\<close>

definition two_spin_test ::
  "real list \<Rightarrow> real \<Rightarrow> real \<Rightarrow> real \<Rightarrow> odo_state \<Rightarrow> error + odo_state" where
  "two_spin_test nodes t q_up_neg q_dn_neg s =
     (case getitem (new_occs s) (int (nocc_up (wfn s)) - 1) of
        Inl e \<Rightarrow> Inl e
      | Inr lu \<Rightarrow>
     (case getitem (new_occs s) (int (nocc (wfn s)) - 1) of
        Inl e \<Rightarrow> Inl e
      | Inr ld \<Rightarrow>
          if max lu ld \<ge> int (nbasis (wfn s)) then Inr (reject s)
          else
            (case cost nodes t (take (nocc_up (wfn s)) (new_occs s)) of
               Inl e \<Rightarrow> Inl e
             | Inr q_up \<Rightarrow>
            (case cost nodes t (drop (nocc_up (wfn s)) (new_occs s)) of
               Inl e \<Rightarrow> Inl e
             | Inr q_dn \<Rightarrow>
                 if q_up < q_up_neg \<and> q_dn < q_dn_neg then
                   (case np_reshape2 (new_occs s) of
                      Inl e \<Rightarrow> Inl e
                    | Inr rows \<Rightarrow>
                        Inr (s\<lparr>wfn := add_occs (wfn s) (Occs2 rows),
                               j_electron := int (nocc (wfn s)) - 1\<rparr>))
                 else Inr (reject s)))))"

definition two_spin_excite :: "odo_state \<Rightarrow> error + odo_state" where
  "two_spin_excite s =
     (let s1 = s\<lparr>old_occs := new_occs s\<rparr>; j = j_electron s1 in
      case increment (new_occs s1) j of
        Inl e \<Rightarrow> Inl e
      | Inr occs \<Rightarrow>
          if j < int (nocc_up (wfn s1)) then
            (case reset_after occs j (int (nocc_up (wfn s1))) of
               Inl e \<Rightarrow> Inl e
             | Inr occs' \<Rightarrow> Inr (s1\<lparr>new_occs := occs'\<rparr>))
          else if j < int (nocc (wfn s1)) - 1 then
            (case reset_after occs j (int (nocc (wfn s1))) of
               Inl e \<Rightarrow> Inl e
             | Inr occs' \<Rightarrow> Inr (s1\<lparr>new_occs := occs'\<rparr>))
          else Inr (s1\<lparr>new_occs := occs\<rparr>))"

definition two_spin_body ::
  "real list \<Rightarrow> real \<Rightarrow> real \<Rightarrow> real \<Rightarrow> odo_state \<Rightarrow> odo_state flow" where
  "two_spin_body nodes t q_up_neg q_dn_neg s =
     (case two_spin_test nodes t q_up_neg q_dn_neg s of
        Inl e \<Rightarrow> Raised e s
      | Inr s1 \<Rightarrow>
          if j_electron s1 < 0 then Break s1
          else
            (case two_spin_excite s1 of
               Inl e \<Rightarrow> Raised e s1
             | Inr s2 \<Rightarrow> Continue s2))"

text \<open>
  \<^verbatim>\<open>aufbau_occs = np.arange(wfn.nocc); aufbau_occs[wfn.nocc_up :] -= wfn.nocc_up\<close>
\<close>

definition two_spin_init :: "wavefunction \<Rightarrow> odo_state" where
  "two_spin_init w =
     \<lparr>new_occs = map int [0..<nocc_up w] @ map int [0..<nocc_dn w],
      old_occs = map int [0..<nocc_up w] @ map int [0..<nocc_dn w],
      j_electron = int (nocc w) - 1, wfn = w\<rparr>"

definition odometer_two_spin ::
  "nat \<Rightarrow> wavefunction \<Rightarrow> real list \<Rightarrow> real \<Rightarrow> real \<Rightarrow> (wavefunction \<times> error option) option" where
  "odometer_two_spin fuel w nodes t p =
     (case threshold nodes t p (take (nocc_up w) (new_occs (two_spin_init w))) of
        Inl e \<Rightarrow> Some (w, Some e)
      | Inr q_up_neg \<Rightarrow>
     (case threshold nodes t p (drop (nocc_up w) (new_occs (two_spin_init w))) of
        Inl e \<Rightarrow> Some (w, Some e)
      | Inr q_dn_neg \<Rightarrow>
          (case while_true (two_spin_body nodes t q_up_neg q_dn_neg) fuel (two_spin_init w) of
             None \<Rightarrow> None
           | Some (s, e) \<Rightarrow> Some (wfn s, e))))"

subsubsection \<open>add_gkci\<close>

text \<open>The argument \<open>mode\<close>: the name of a node pattern, or an explicit sequence of costs.\<close>

datatype mode = Mode_name string | Mode_nodes "real list"

definition construct_nodes :: "wavefunction \<Rightarrow> mode \<Rightarrow> int option \<Rightarrow> error + real list" where
  "construct_nodes w md node_dim =
     (case md of
        Mode_name m \<Rightarrow>
          if m \<noteq> ''gamma'' \<and> node_dim \<noteq> None
          then Inl (ValueError (''node_dim must not be specified with mode '' @ m))
          else if m = ''gamma'' \<and> node_dim = None
          then Inl (ValueError ''node_dim must be specified with mode 'gamma' '')
          else if m = ''cntsp'' then Inr (cntsp_loop (nbasis w) [] 1)
          else if m = ''gamma'' then Inl NotImplementedError
          else if m = ''cubic'' then Inl NotImplementedError
          else Inl (ValueError ''mode must be one of ('cntsp', 'gamma', 'cubic' '')
      | Mode_nodes nodes \<Rightarrow> Inr nodes)"

definition add_gkci ::
  "nat \<Rightarrow> wavefunction \<Rightarrow> real \<Rightarrow> real \<Rightarrow> mode \<Rightarrow> int option
     \<Rightarrow> (wavefunction \<times> error option) option" where
  "add_gkci fuel w t p md node_dim =
     (case construct_nodes w md node_dim of
        Inl e \<Rightarrow> Some (w, Some e)
      | Inr nodes0 \<Rightarrow>
          (let nodes = take (nbasis w) nodes0 in
           if kind w = Doci \<or> kind w = Genci then odometer_one_spin fuel w nodes t p
           else if kind w = Fullci then odometer_two_spin fuel w nodes t p
           else Some (w, Some (TypeError ''wfn must be a pyci.{doci,fullci,genci}_wfn''))))"

subsection \<open>add_seniorities\<close>

text \<open>
  Python slice bounds: a bound \<open>i\<close> of a slice of a sequence of length \<open>n\<close> counts from
  the end when negative and is clipped to \<open>0, \<dots>, n\<close>.
\<close>

definition slice_bound :: "nat \<Rightarrow> int \<Rightarrow> nat" where
  "slice_bound n i = (if i < 0 then nat (max 0 (int n + i)) else min n (nat i))"

text \<open>
  NumPy slice assignment \<^verbatim>\<open>row[lo:hi] = vals\<close>: the values must be as many as the slice
  has cells, or be a single value, which is then broadcast; otherwise ValueError.
\<close>

definition set_slice :: "'a list \<Rightarrow> int \<Rightarrow> int \<Rightarrow> 'a list \<Rightarrow> error + 'a list" where
  "set_slice row lo hi vals =
     (let a = slice_bound (length row) lo; b = max a (slice_bound (length row) hi) in
      if length vals = b - a then Inr (take a row @ vals @ drop b row)
      else if length vals = 1 then Inr (take a row @ replicate (b - a) (hd vals) @ drop b row)
      else Inl (ValueError ''could not broadcast input array''))"

text \<open>
  \<^verbatim>\<open>itertools.combinations(xs, r)\<close>: the subsequences of length \<open>r\<close>, in lexicographic order
  of positions; a negative \<open>r\<close> raises ValueError.
\<close>

fun combos :: "'a list \<Rightarrow> nat \<Rightarrow> 'a list list" where
  "combos xs 0 = [[]]"
| "combos [] (Suc r) = []"
| "combos (x # xs) (Suc r) = map (\<lambda>c. x # c) (combos xs r) @ combos xs (Suc r)"

definition combinations :: "'a list \<Rightarrow> int \<Rightarrow> error + 'a list list" where
  "combinations xs r =
     (if r < 0 then Inl (ValueError ''r must be non-negative'') else Inr (combos xs (nat r)))"

text \<open>
  Modelled from the spec: the seniority-zero wave function \<^verbatim>\<open>pyci.doci_wfn\<close>, its
  \<^verbatim>\<open>add_all_dets\<close> and \<^verbatim>\<open>to_occ_array\<close> are not in this module. The specification says
  that they ``enumerate all possible spin-up occupation patterns of size \<open>nocc_up\<close> from
  \<open>nbasis\<close> orbitals''; the order of the rows is the lexicographic one here.
\<close>

definition occ_up_array :: "wavefunction \<Rightarrow> int list list" where
  "occ_up_array w = combos (map int [0..<nbasis w]) (nocc_up w)"

text \<open>
  \<^verbatim>\<open>np.setdiff1d(brange, occs_up, assume_unique=True)\<close>: the entries of \<open>brange\<close> that are
  not in \<open>occs_up\<close>, in the order of \<open>brange\<close>.
\<close>

definition setdiff1d :: "int list \<Rightarrow> int list \<Rightarrow> int list" where
  "setdiff1d xs ys = filter (\<lambda>x. x \<notin> set ys) xs"

text \<open>
  The working array \<^verbatim>\<open>occs = np.empty((2, wfn.nocc_up))\<close> is two rows of \<open>nocc_up\<close>
  cells. \<^verbatim>\<open>np.empty\<close> does not initialise the cells: what they hold is the parameter
  \<open>junk\<close> (row, column).
\<close>

definition np_empty2 :: "(nat \<Rightarrow> nat \<Rightarrow> int) \<Rightarrow> nat \<Rightarrow> int list \<times> int list" where
  "np_empty2 junk n = (map (junk 0) [0..<n], map (junk 1) [0..<n])"

text \<open>
  The state of the loops of \<^verbatim>\<open>add_seniorities\<close>: the wave function and the two rows of
  \<open>occs\<close>. A step returns the state it reached and the exception it raised, if any.
\<close>

type_synonym sen_state = "wavefunction \<times> (int list \<times> int list)"

type_synonym sen_step = "sen_state \<Rightarrow> sen_state \<times> error option"

definition seq :: "sen_step \<Rightarrow> sen_step \<Rightarrow> sen_step" where
  "seq f g s = (case f s of (s', None) \<Rightarrow> g s' | (s', Some e) \<Rightarrow> (s', Some e))"

fun for_each :: "('a \<Rightarrow> sen_step) \<Rightarrow> 'a list \<Rightarrow> sen_step" where
  "for_each f [] s = (s, None)"
| "for_each f (x # xs) s =
     (case f x s of
        (s', None) \<Rightarrow> for_each f xs s'
      | (s', Some e) \<Rightarrow> (s', Some e))"

text \<open>\<^verbatim>\<open>occs[0, :] = vals\<close>\<close>

definition store_up :: "int list \<Rightarrow> sen_step" where
  "store_up vals s =
     (case s of (w, (r0, r1)) \<Rightarrow>
        (case set_slice r0 0 (int (length r0)) vals of
           Inl e \<Rightarrow> (s, Some e)
         | Inr r0' \<Rightarrow> ((w, (r0', r1)), None)))"

text \<open>\<^verbatim>\<open>occs[1, lo:hi] = vals\<close>\<close>

definition store_dn :: "int \<Rightarrow> int \<Rightarrow> int list \<Rightarrow> sen_step" where
  "store_dn lo hi vals s =
     (case s of (w, (r0, r1)) \<Rightarrow>
        (case set_slice r1 lo hi vals of
           Inl e \<Rightarrow> (s, Some e)
         | Inr r1' \<Rightarrow> ((w, (r0, r1')), None)))"

text \<open>\<^verbatim>\<open>occs[1, :] = vals\<close>\<close>

definition store_dn_all :: "int list \<Rightarrow> sen_step" where
  "store_dn_all vals s =
     (case s of (w, (r0, r1)) \<Rightarrow> store_dn 0 (int (length r1)) vals s)"

text \<open>\<^verbatim>\<open>wfn.add_occs(occs)\<close>\<close>

definition insert_occs :: sen_step where
  "insert_occs s = (case s of (w, (r0, r1)) \<Rightarrow> ((add_occs w (Occs2 [r0, r1]), (r0, r1)), None))"

text \<open>
  The body of \<^verbatim>\<open>for s in seniorities\<close> (source lines 93 to 123). The attributes of the
  wave function are read when the request starts; \<^verbatim>\<open>add_occs\<close> does not change them.
\<close>

definition add_seniority :: "int list list \<Rightarrow> int list \<Rightarrow> int \<Rightarrow> sen_step" where
  "add_seniority up_array brange sen s =
     (let w = fst s; nd = int (nocc_dn w) in
      if sen = 0 then
        for_each (\<lambda>occs_up. seq (store_up occs_up) (seq (store_dn_all occs_up) insert_occs))
          up_array s
      else
        (let pairs = (int (nocc w) - sen) div 2 in
         if pairs = nd then
           for_each (\<lambda>occs_up.
               seq (store_up occs_up)
                 (for_each (\<lambda>occs_dn. seq (store_dn 0 nd occs_dn) insert_occs)
                    (combos occs_up (nocc_dn w))))
             up_array s
         else if pairs = 0 then
           for_each (\<lambda>occs_up.
               seq (store_up occs_up)
                 (for_each (\<lambda>occs_dn. seq (store_dn 0 nd occs_dn) insert_occs)
                    (combos (setdiff1d brange occs_up) (nocc_dn w))))
             up_array s
         else
           for_each (\<lambda>occs_up.
               seq (store_up occs_up)
                 (\<lambda>s1. case combinations occs_up pairs of
                     Inl e \<Rightarrow> (s1, Some e)
                   | Inr cs_i \<Rightarrow>
                       for_each (\<lambda>occs_i_dn.
                           seq (store_dn 0 pairs occs_i_dn)
                             (\<lambda>s2. case combinations (setdiff1d brange occs_up) (nd - pairs) of
                                 Inl e \<Rightarrow> (s2, Some e)
                               | Inr cs_a \<Rightarrow>
                                   for_each (\<lambda>occs_a_dn. seq (store_dn pairs nd occs_a_dn) insert_occs)
                                     cs_a s2))
                         cs_i s1))
             up_array s))"

text \<open>
  \<^verbatim>\<open>s < smin or s > smax or s % 2 != smin % 2\<close>; Python's \<^verbatim>\<open>%\<close> with a positive modulus
  is \<open>mod\<close> on \<open>int\<close>.
\<close>

definition invalid_seniority :: "wavefunction \<Rightarrow> int \<Rightarrow> bool" where
  "invalid_seniority w sen =
     (let smin = int (nocc_up w) - int (nocc_dn w); smax = min (int (nocc_up w)) (nvir_up w) in
      sen < smin \<or> sen > smax \<or> sen mod 2 \<noteq> smin mod 2)"

definition add_seniorities ::
  "(nat \<Rightarrow> nat \<Rightarrow> int) \<Rightarrow> wavefunction \<Rightarrow> int list \<Rightarrow> wavefunction \<times> error option" where
  "add_seniorities junk w seniorities =
     (if kind w \<noteq> Fullci then (w, Some (TypeError ''wfn must be a pyci.fullci_wfn''))
      else if list_ex (invalid_seniority w) seniorities
      then (w, Some (ValueError ''invalid seniority number specified''))
      else
        (case for_each (add_seniority (occ_up_array w) (map int [0..<nbasis w])) seniorities
                (w, np_empty2 junk (nocc_up w)) of
           ((w', occs), e) \<Rightarrow> (w', e)))"

text \<open>
  The number of singly occupied orbitals of an array inserted by \<^verbatim>\<open>add_seniorities\<close>:
  the spin-up occupation is row 0, the spin-down occupation the first \<open>nocc_dn\<close> cells
  of row 1 (the cells the source writes, \<^verbatim>\<open>occs[1, : wfn.nocc_dn]\<close>); an orbital is
  singly occupied when it is in exactly one of the two.
\<close>

definition has_seniority :: "wavefunction \<Rightarrow> int \<Rightarrow> occs_array \<Rightarrow> bool" where
  "has_seniority w sen d =
     (case d of
        Occs2 [up, row1] \<Rightarrow>
          (let dn = take (nocc_dn w) row1 in
           int (card ((set up - set dn) \<union> (set dn - set up))) = sen)
      | _ \<Rightarrow> False)"

subsection \<open>Predicates used to state the properties\<close>


text \<open>
  A one-dimensional array handed to \<^verbatim>\<open>add_occs\<close> passes the one-spin test: its cost is
  defined and strictly below the threshold computed from the aufbau occupation
  \<open>0, \<dots>, nocc_up - 1\<close>.
\<close>

definition below_threshold_one ::
  "real list \<Rightarrow> real \<Rightarrow> real \<Rightarrow> wavefunction \<Rightarrow> occs_array \<Rightarrow> bool" where
  "below_threshold_one nodes t p w d =
     (case d of
        Occs1 occs \<Rightarrow>
          (case (cost nodes t occs, threshold nodes t p (map int [0..<nocc_up w])) of
             (Inr qs, Inr qs_neg) \<Rightarrow> qs < qs_neg
           | _ \<Rightarrow> False)
      | Occs2 rows \<Rightarrow> False)"

text \<open>
  A two-dimensional array handed to \<^verbatim>\<open>add_occs\<close> passes the two-spin test. The array is
  the reshaped \<open>new_occs\<close>, so its entries in row-major order are \<open>new_occs\<close> again; the
  spin-up channel is the first \<open>nocc_up\<close> of them and the spin-down channel the rest, as
  in the source. Each channel's cost is strictly below the threshold computed from that
  channel's aufbau occupation.
\<close>

definition below_threshold_two ::
  "real list \<Rightarrow> real \<Rightarrow> real \<Rightarrow> wavefunction \<Rightarrow> occs_array \<Rightarrow> bool" where
  "below_threshold_two nodes t p w d =
     (case d of
        Occs1 occs \<Rightarrow> False
      | Occs2 rows \<Rightarrow>
          (case (cost nodes t (take (nocc_up w) (concat rows)),
                 threshold nodes t p (map int [0..<nocc_up w]),
                 cost nodes t (drop (nocc_up w) (concat rows)),
                 threshold nodes t p (map int [0..<nocc_dn w])) of
             (Inr q_up, Inr q_up_neg, Inr q_dn, Inr q_dn_neg) \<Rightarrow>
               q_up < q_up_neg \<and> q_dn < q_dn_neg
           | _ \<Rightarrow> False))"

text \<open>Two wave function objects describe the same system: only \<open>dets\<close> may differ.\<close>

definition same_system :: "wavefunction \<Rightarrow> wavefunction \<Rightarrow> bool" where
  "same_system w w' =
     (kind w' = kind w \<and> nbasis w' = nbasis w \<and> nocc_up w' = nocc_up w \<and> nocc_dn w' = nocc_dn w)"

text \<open>
  \<open>w'\<close> is \<open>w\<close> after some calls of \<^verbatim>\<open>add_occs\<close>, each with an array satisfying \<open>P\<close>.
\<close>

definition inserted_only :: "(occs_array \<Rightarrow> bool) \<Rightarrow> wavefunction \<Rightarrow> wavefunction \<Rightarrow> bool" where
  "inserted_only P w w' =
     (same_system w w' \<and> take (length (dets w)) (dets w') = dets w
        \<and> list_all P (drop (length (dets w)) (dets w')))"

text \<open>
  The state at the top of a \<^verbatim>\<open>while True\<close> loop after \<open>n\<close> complete passes through its
  body, that is, the state in which pass \<open>n + 1\<close> starts with its acceptance test;
  \<open>None\<close> when the loop ended earlier.
\<close>

fun loop_state :: "('s \<Rightarrow> 's flow) \<Rightarrow> nat \<Rightarrow> 's \<Rightarrow> 's option" where
  "loop_state body 0 s = Some s"
| "loop_state body (Suc n) s =
     (case body s of
        Continue s' \<Rightarrow> loop_state body n s'
      | Break s' \<Rightarrow> None
      | Raised e s' \<Rightarrow> None)"

text \<open>
  What every pass of the one-spin loop preserves: the system is unchanged, both
  working arrays hold \<open>nocc_up\<close> strictly increasing indices, and \<open>j_electron\<close> points
  into them or is negative.
\<close>

definition one_spin_inv :: "wavefunction \<Rightarrow> odo_state \<Rightarrow> bool" where
  "one_spin_inv w s =
     (same_system w (wfn s) \<and> length (new_occs s) = nocc_up w \<and> length (old_occs s) = nocc_up w
        \<and> sorted_wrt (<) (new_occs s) \<and> sorted_wrt (<) (old_occs s)
        \<and> j_electron s < int (nocc_up w))"

text \<open>The same for the two-spin loop, channel by channel.\<close>

definition two_spin_inv :: "wavefunction \<Rightarrow> odo_state \<Rightarrow> bool" where
  "two_spin_inv w s =
     (same_system w (wfn s) \<and> length (new_occs s) = nocc w \<and> length (old_occs s) = nocc w
        \<and> sorted_wrt (<) (take (nocc_up w) (new_occs s))
        \<and> sorted_wrt (<) (drop (nocc_up w) (new_occs s))
        \<and> sorted_wrt (<) (take (nocc_up w) (old_occs s))
        \<and> sorted_wrt (<) (drop (nocc_up w) (old_occs s))
        \<and> j_electron s < int (nocc w))"

text \<open>
  What the loops of \<^verbatim>\<open>add_seniorities\<close> preserve while they serve the request \<open>sen\<close>,
  started with the wave function \<open>w0\<close>: only arrays of seniority \<open>sen\<close> have been
  inserted since, and both rows of \<open>occs\<close> have \<open>nocc_up\<close> cells.
\<close>

definition sen_inv :: "wavefunction \<Rightarrow> int \<Rightarrow> wavefunction \<Rightarrow> sen_state \<Rightarrow> bool" where
  "sen_inv w sen w0 s =
     (case s of (w1, (r0, r1)) \<Rightarrow>
        inserted_only (has_seniority w sen) w0 w1 \<and> same_system w w1
          \<and> length r0 = nocc_up w \<and> length r1 = nocc_up w)"








text \<open>
  A rank of an occupation array that falls whenever an electron is excited to an orbital
  below \<open>B\<close> and the electrons after it are reset to non-negative orbitals: the array
  read as a number in base \<open>B + 1\<close> with the digits \<open>B - x\<close>.
\<close>

definition occs_rank :: "nat \<Rightarrow> int list \<Rightarrow> nat" where
  "occs_rank B xs = fold (\<lambda>x acc. acc * (B + 1) + nat (int B - x)) xs 0"

text \<open>
  \<open>b\<close> is \<open>a\<close> after \<^verbatim>\<open>new_occs[j] += 1\<close> and the reset of the electrons after \<open>j\<close> up to
  \<open>hi\<close>.
\<close>

definition excited_at :: "int list \<Rightarrow> int \<Rightarrow> int \<Rightarrow> int list \<Rightarrow> bool" where
  "excited_at a j hi b =
     (case increment a j of
        Inl e \<Rightarrow> False
      | Inr zs \<Rightarrow> reset_after zs j hi = Inr b)"

text \<open>
  States of the one-spin loop: \<open>one_spin_pre\<close> holds at the top of every pass, and from
  the second pass on \<open>one_spin_top\<close> does: \<open>new_occs\<close> is \<open>old_occs\<close> with the electron
  \<open>j_electron\<close> excited. \<open>one_spin_rank\<close> falls with every pass.
\<close>

definition one_spin_pre :: "wavefunction \<Rightarrow> odo_state \<Rightarrow> bool" where
  "one_spin_pre w s =
     (one_spin_inv w s \<and> list_all (\<lambda>x. 0 \<le> x) (new_occs s) \<and> list_all (\<lambda>x. 0 \<le> x) (old_occs s))"

definition one_spin_top :: "wavefunction \<Rightarrow> odo_state \<Rightarrow> bool" where
  "one_spin_top w s =
     (one_spin_pre w s \<and> 0 \<le> j_electron s
        \<and> excited_at (old_occs s) (j_electron s) (int (nocc_up w)) (new_occs s))"

definition one_spin_rank :: "wavefunction \<Rightarrow> odo_state \<Rightarrow> nat" where
  "one_spin_rank w s =
     occs_rank (nbasis w) (old_occs s) * (nocc_up w + 1) + nat (j_electron s + 1)"

text \<open>
  The same for the two-spin loop; \<open>reset_bound\<close> is where the reset after exciting
  electron \<open>j\<close> stops, the end of the channel of \<open>j\<close>.
\<close>

definition reset_bound :: "wavefunction \<Rightarrow> int \<Rightarrow> int" where
  "reset_bound w j = (if j < int (nocc_up w) then int (nocc_up w) else int (nocc w))"

definition two_spin_pre :: "wavefunction \<Rightarrow> odo_state \<Rightarrow> bool" where
  "two_spin_pre w s =
     (two_spin_inv w s \<and> list_all (\<lambda>x. 0 \<le> x) (new_occs s) \<and> list_all (\<lambda>x. 0 \<le> x) (old_occs s))"

definition two_spin_top :: "wavefunction \<Rightarrow> odo_state \<Rightarrow> bool" where
  "two_spin_top w s =
     (two_spin_pre w s \<and> 0 \<le> j_electron s
        \<and> excited_at (old_occs s) (j_electron s) (reset_bound w (j_electron s)) (new_occs s))"

definition two_spin_rank :: "wavefunction \<Rightarrow> odo_state \<Rightarrow> nat" where
  "two_spin_rank w s =
     occs_rank (nbasis w) (old_occs s) * (nocc w + 1) + nat (j_electron s + 1)"

section \<open>Properties\<close>

subsection \<open>solve on an operator of dimension one\<close>

text \<open>
  C6. When the operator found from the arguments has exactly one column, \<open>solve\<close>
  returns the one-element eigenvalue array \<open>[get_element(0, 0) + ecore]\<close> and the
  coefficient matrix \<open>[[1.0]]\<close>. The result depends neither on the eigensolver, which is
  an arbitrary parameter here and so is never consulted, nor on \<open>n\<close>, \<open>c0\<close>, \<open>ncv\<close>,
  \<open>maxiter\<close> and \<open>tol\<close>.
\<close>

theorem solve_dimension_one:
  assumes "handle_inputs mk_op args = Inr op"
    and "snd (shape op) = 1"
  shows "solve eigsh mk_op args n c0 ncv maxiter tol
           = Inr ([get_element op 0 0 + ecore op], [[1]])"
  using assms by (simp add: solve_def)

theorem solve_dimension_one_witness:
  "solve (\<lambda>mv sh k v0 ncv mi tl. Inl NotImplementedError) (\<lambda>a b. Inl NotImplementedError)
     [ArgOp \<lparr>shape = (1, 1), ecore = 2, get_element = (\<lambda>i j. 3), matvec = (\<lambda>x. x),
              matvec_cepa0 = (\<lambda>x r. x), rmatvec_cepa0 = (\<lambda>x r. x), rhs_cepa0 = (\<lambda>r. [0])\<rparr>]
     7 (Some [1, 2, 3]) (Some 4) 5000 (1 / 10 ^ 12)
   = Inr ([5], [[1]])"
proof -
  let ?op = "\<lparr>shape = (1, 1), ecore = 2, get_element = (\<lambda>i j. 3), matvec = (\<lambda>x. x),
              matvec_cepa0 = (\<lambda>x r. x), rmatvec_cepa0 = (\<lambda>x r. x), rhs_cepa0 = (\<lambda>r. [0])\<rparr>"
  have h1: "handle_inputs (\<lambda>a b. Inl NotImplementedError) [ArgOp ?op] = Inr ?op"
    by (simp add: handle_inputs_def)
  have h2: "snd (shape ?op) = 1"
    by simp
  show ?thesis
    using solve_dimension_one [OF h1 h2] by simp
qed

subsection \<open>The node table of mode cntsp\<close>







subsection \<open>Loop rules, and what the odometer inserts\<close>

lemma while_true_rule:
  assumes "while_true body fuel s = Some (s', e)"
    and "I s"
    and "\<And>a b. I a \<Longrightarrow> body a = Continue b \<Longrightarrow> I b"
    and "\<And>a b. I a \<Longrightarrow> body a = Break b \<Longrightarrow> Q b"
    and "\<And>a b x. I a \<Longrightarrow> body a = Raised x b \<Longrightarrow> Q b"
  shows "Q s'"
  using assms(1,2)
proof (induction fuel arbitrary: s)
  case 0
  then show ?case by simp
next
  case (Suc fuel)
  show ?case
  proof (cases "body s")
    case (Continue b)
    with Suc.prems have "while_true body fuel b = Some (s', e)" by simp
    moreover have "I b" using assms(3) Suc.prems(2) Continue by blast
    ultimately show ?thesis by (rule Suc.IH)
  next
    case (Break b)
    with Suc.prems have "s' = b" by simp
    with assms(4) Suc.prems(2) Break show ?thesis by blast
  next
    case (Raised x b)
    with Suc.prems have "s' = b" by simp
    with assms(5) Suc.prems(2) Raised show ?thesis by blast
  qed
qed

lemma inserted_only_refl: "inserted_only P w w"
  by (simp add: inserted_only_def same_system_def)

lemma inserted_only_add:
  assumes "inserted_only P w w'" and "P d"
  shows "inserted_only P w (add_occs w' d)"
proof -
  from assms(1) have len: "length (dets w) \<le> length (dets w')"
    by (metis inserted_only_def length_take min.cobounded2 min_def nat_le_linear)
  with assms show ?thesis
    by (simp add: inserted_only_def same_system_def add_occs_def)
qed

lemma wfn_reject [simp]: "wfn (reject s) = wfn s"
  by (simp add: reject_def)

lemma one_spin_test_cases:
  assumes "one_spin_test nodes t qs_neg s = Inr s1"
  shows "wfn s1 = wfn s \<or>
        (\<exists>qs. cost nodes t (new_occs s) = Inr qs \<and> qs < qs_neg
            \<and> wfn s1 = add_occs (wfn s) (Occs1 (new_occs s)))"
  using assms unfolding one_spin_test_def
  by (auto split: sum.splits if_splits)

lemma one_spin_test_inserted:
  assumes "one_spin_test nodes t qs_neg s = Inr s1"
    and "inserted_only (below_threshold_one nodes t p w) w (wfn s)"
    and "threshold nodes t p (map int [0..<nocc_up w]) = Inr qs_neg"
  shows "inserted_only (below_threshold_one nodes t p w) w (wfn s1)"
  using one_spin_test_cases [OF assms(1)]
proof
  assume "wfn s1 = wfn s"
  with assms(2) show ?thesis by simp
next
  assume "\<exists>qs. cost nodes t (new_occs s) = Inr qs \<and> qs < qs_neg
          \<and> wfn s1 = add_occs (wfn s) (Occs1 (new_occs s))"
  then obtain qs where q: "cost nodes t (new_occs s) = Inr qs" "qs < qs_neg"
    and w1: "wfn s1 = add_occs (wfn s) (Occs1 (new_occs s))"
    by blast
  have "below_threshold_one nodes t p w (Occs1 (new_occs s))"
    using q assms(3) by (simp add: below_threshold_one_def)
  with assms(2) w1 show ?thesis
    by (simp add: inserted_only_add)
qed

lemma one_spin_excite_wfn: "one_spin_excite s = Inr s2 \<Longrightarrow> wfn s2 = wfn s"
  unfolding one_spin_excite_def Let_def
  by (auto split: sum.splits if_splits)

lemma one_spin_body_cases:
  assumes "one_spin_body nodes t qs_neg s = r"
  shows "(\<exists>x. r = Raised x s) \<or>
         (\<exists>s1. one_spin_test nodes t qs_neg s = Inr s1 \<and>
            (r = Break s1 \<or> (\<exists>x. r = Raised x s1) \<or>
             (\<exists>s2. j_electron s1 \<ge> 0 \<and> one_spin_excite s1 = Inr s2 \<and> r = Continue s2)))"
  using assms unfolding one_spin_body_def
  by (auto split: sum.splits if_splits)

lemma one_spin_body_inserted:
  assumes "inserted_only (below_threshold_one nodes t p w) w (wfn s)"
    and "threshold nodes t p (map int [0..<nocc_up w]) = Inr qs_neg"
    and "one_spin_body nodes t qs_neg s = r"
    and "r = Continue b \<or> r = Break b \<or> r = Raised x b"
  shows "inserted_only (below_threshold_one nodes t p w) w (wfn b)"
  using one_spin_body_cases [OF assms(3)] assms(1,4)
    one_spin_test_inserted [OF _ assms(1,2)] one_spin_excite_wfn
  by (elim disjE exE conjE) auto

lemma odometer_one_spin_inserted:
  assumes "odometer_one_spin fuel w nodes t p = Some (w', e)"
  shows "inserted_only (below_threshold_one nodes t p w) w w'"
proof (cases "threshold nodes t p (map int [0..<nocc_up w])")
  case (Inl x)
  with assms have "w' = w"
    by (simp add: odometer_one_spin_def one_spin_init_def)
  then show ?thesis by (simp add: inserted_only_refl)
next
  case (Inr qs_neg)
  with assms obtain s' where
    run: "while_true (one_spin_body nodes t qs_neg) fuel (one_spin_init w) = Some (s', e)"
    and w': "w' = wfn s'"
    by (auto simp: odometer_one_spin_def one_spin_init_def split: option.splits)
  let ?I = "\<lambda>s. inserted_only (below_threshold_one nodes t p w) w (wfn s)"
  have "?I s'"
  proof (rule while_true_rule [OF run, where I = ?I])
    show "?I (one_spin_init w)"
      by (simp add: one_spin_init_def inserted_only_refl)
  next
    fix a b assume "?I a" "one_spin_body nodes t qs_neg a = Continue b"
    then show "?I b" using one_spin_body_inserted [OF _ Inr] by blast
  next
    fix a b assume "?I a" "one_spin_body nodes t qs_neg a = Break b"
    then show "?I b" using one_spin_body_inserted [OF _ Inr] by blast
  next
    fix a b x assume "?I a" "one_spin_body nodes t qs_neg a = Raised x b"
    then show "?I b" using one_spin_body_inserted [OF _ Inr] by blast
  qed
  with w' show ?thesis by simp
qed

lemma concat_reshape2: "np_reshape2 xs = Inr rows \<Longrightarrow> concat rows = xs"
  by (auto simp: np_reshape2_def split: if_splits)

lemma two_spin_test_cases:
  assumes "two_spin_test nodes t q_up_neg q_dn_neg s = Inr s1"
  shows "wfn s1 = wfn s \<or>
        (\<exists>q_up q_dn rows.
            cost nodes t (take (nocc_up (wfn s)) (new_occs s)) = Inr q_up \<and> q_up < q_up_neg
          \<and> cost nodes t (drop (nocc_up (wfn s)) (new_occs s)) = Inr q_dn \<and> q_dn < q_dn_neg
          \<and> np_reshape2 (new_occs s) = Inr rows
          \<and> wfn s1 = add_occs (wfn s) (Occs2 rows))"
  using assms unfolding two_spin_test_def
  by (auto split: sum.splits if_splits)

lemma two_spin_test_inserted:
  assumes "two_spin_test nodes t q_up_neg q_dn_neg s = Inr s1"
    and "inserted_only (below_threshold_two nodes t p w) w (wfn s)"
    and "threshold nodes t p (map int [0..<nocc_up w]) = Inr q_up_neg"
    and "threshold nodes t p (map int [0..<nocc_dn w]) = Inr q_dn_neg"
  shows "inserted_only (below_threshold_two nodes t p w) w (wfn s1)"
  using two_spin_test_cases [OF assms(1)]
proof
  assume "wfn s1 = wfn s"
  with assms(2) show ?thesis by simp
next
  assume "\<exists>q_up q_dn rows.
            cost nodes t (take (nocc_up (wfn s)) (new_occs s)) = Inr q_up \<and> q_up < q_up_neg
          \<and> cost nodes t (drop (nocc_up (wfn s)) (new_occs s)) = Inr q_dn \<and> q_dn < q_dn_neg
          \<and> np_reshape2 (new_occs s) = Inr rows
          \<and> wfn s1 = add_occs (wfn s) (Occs2 rows)"
  then obtain q_up q_dn rows where
    up: "cost nodes t (take (nocc_up (wfn s)) (new_occs s)) = Inr q_up" "q_up < q_up_neg"
    and dn: "cost nodes t (drop (nocc_up (wfn s)) (new_occs s)) = Inr q_dn" "q_dn < q_dn_neg"
    and rows: "np_reshape2 (new_occs s) = Inr rows"
    and w1: "wfn s1 = add_occs (wfn s) (Occs2 rows)"
    by blast
  have same: "nocc_up (wfn s) = nocc_up w"
    using assms(2) by (simp add: inserted_only_def same_system_def)
  have "below_threshold_two nodes t p w (Occs2 rows)"
    using up dn assms(3,4) same concat_reshape2 [OF rows]
    by (simp add: below_threshold_two_def)
  with assms(2) w1 show ?thesis
    by (simp add: inserted_only_add)
qed

lemma two_spin_excite_wfn: "two_spin_excite s = Inr s2 \<Longrightarrow> wfn s2 = wfn s"
  unfolding two_spin_excite_def Let_def
  by (auto split: sum.splits if_splits)

lemma two_spin_body_cases:
  assumes "two_spin_body nodes t q_up_neg q_dn_neg s = r"
  shows "(\<exists>x. r = Raised x s) \<or>
         (\<exists>s1. two_spin_test nodes t q_up_neg q_dn_neg s = Inr s1 \<and>
            (r = Break s1 \<or> (\<exists>x. r = Raised x s1) \<or>
             (\<exists>s2. j_electron s1 \<ge> 0 \<and> two_spin_excite s1 = Inr s2 \<and> r = Continue s2)))"
  using assms unfolding two_spin_body_def
  by (auto split: sum.splits if_splits)

lemma two_spin_body_inserted:
  assumes "inserted_only (below_threshold_two nodes t p w) w (wfn s)"
    and "threshold nodes t p (map int [0..<nocc_up w]) = Inr q_up_neg"
    and "threshold nodes t p (map int [0..<nocc_dn w]) = Inr q_dn_neg"
    and "two_spin_body nodes t q_up_neg q_dn_neg s = r"
    and "r = Continue b \<or> r = Break b \<or> r = Raised x b"
  shows "inserted_only (below_threshold_two nodes t p w) w (wfn b)"
  using two_spin_body_cases [OF assms(4)] assms(1,5)
    two_spin_test_inserted [OF _ assms(1,2,3)] two_spin_excite_wfn
  by (elim disjE exE conjE) auto

lemma two_spin_init_channels:
  "take (nocc_up w) (new_occs (two_spin_init w)) = map int [0..<nocc_up w]"
  "drop (nocc_up w) (new_occs (two_spin_init w)) = map int [0..<nocc_dn w]"
  by (simp_all add: two_spin_init_def)

lemma odometer_two_spin_inserted:
  assumes "odometer_two_spin fuel w nodes t p = Some (w', e)"
  shows "inserted_only (below_threshold_two nodes t p w) w w'"
proof (cases "threshold nodes t p (map int [0..<nocc_up w])")
  case (Inl x)
  with assms have "w' = w"
    by (simp add: odometer_two_spin_def two_spin_init_channels)
  then show ?thesis by (simp add: inserted_only_refl)
next
  case up: (Inr q_up_neg)
  show ?thesis
  proof (cases "threshold nodes t p (map int [0..<nocc_dn w])")
    case (Inl x)
    with assms up have "w' = w"
      by (simp add: odometer_two_spin_def two_spin_init_channels)
    then show ?thesis by (simp add: inserted_only_refl)
  next
    case dn: (Inr q_dn_neg)
    with assms up obtain s' where
      run: "while_true (two_spin_body nodes t q_up_neg q_dn_neg) fuel (two_spin_init w) = Some (s', e)"
      and w': "w' = wfn s'"
      by (auto simp: odometer_two_spin_def two_spin_init_channels split: option.splits)
    let ?I = "\<lambda>s. inserted_only (below_threshold_two nodes t p w) w (wfn s)"
    have "?I s'"
    proof (rule while_true_rule [OF run, where I = ?I])
      show "?I (two_spin_init w)"
        by (simp add: two_spin_init_def inserted_only_refl)
    next
      fix a b assume "?I a" "two_spin_body nodes t q_up_neg q_dn_neg a = Continue b"
      then show "?I b" using two_spin_body_inserted [OF _ up dn] by blast
    next
      fix a b assume "?I a" "two_spin_body nodes t q_up_neg q_dn_neg a = Break b"
      then show "?I b" using two_spin_body_inserted [OF _ up dn] by blast
    next
      fix a b x assume "?I a" "two_spin_body nodes t q_up_neg q_dn_neg a = Raised x b"
      then show "?I b" using two_spin_body_inserted [OF _ up dn] by blast
    qed
    with w' show ?thesis by simp
  qed
qed

subsection \<open>Occupations stay strictly increasing within each channel\<close>

lemma getitem_nonneg: "0 \<le> i \<Longrightarrow> i < int (length xs) \<Longrightarrow> getitem xs i = Inr (xs ! nat i)"
  by (simp add: getitem_def py_index_def)

lemma setitem_nonneg:
  "0 \<le> i \<Longrightarrow> i < int (length xs) \<Longrightarrow> setitem xs i v = Inr (xs[nat i := v])"
  by (simp add: setitem_def py_index_def)

lemma increment_nonneg:
  "0 \<le> j \<Longrightarrow> j < int (length xs) \<Longrightarrow> increment xs j = Inr (xs[nat j := xs ! nat j + 1])"
  by (simp add: increment_def getitem_nonneg setitem_nonneg)

lemma reset_after_empty: "hi \<le> j + 1 \<Longrightarrow> reset_after xs j hi = Inr xs"
  by (simp add: reset_after_def)

lemma reset_after_step:
  assumes "j + 1 \<le> hi"
  shows "reset_after xs j (hi + 1) =
     (case reset_after xs j hi of
        Inl e \<Rightarrow> Inl e
      | Inr ys \<Rightarrow>
          (case getitem ys j of
             Inl e \<Rightarrow> Inl e
           | Inr v \<Rightarrow> setitem ys hi (v + hi - j)))"
proof -
  have "[j + 1..hi + 1 - 1] = [j + 1..hi - 1] @ [hi]"
    using assms upto_rec2 [of "j + 1" hi] by simp
  then show ?thesis
    by (simp add: reset_after_def)
qed

lemma reset_after_spec:
  assumes "0 \<le> j" and "j < int (length xs)" and "j + 1 \<le> hi"
  shows "hi \<le> int (length xs) \<longrightarrow>
     (\<exists>ys. reset_after xs j hi = Inr ys \<and> length ys = length xs \<and>
        (\<forall>i<length xs. ys ! i =
           (if j < int i \<and> int i < hi then xs ! nat j + int i - j else xs ! i)))"
  using assms(3)
proof (induction hi rule: int_ge_induct)
  case base
  show ?case by (simp add: reset_after_empty)
next
  case (step hi)
  show ?case
  proof
    assume le: "hi + 1 \<le> int (length xs)"
    with step.IH obtain ys where ys: "reset_after xs j hi = Inr ys" "length ys = length xs"
      and nth: "\<forall>i<length xs. ys ! i =
           (if j < int i \<and> int i < hi then xs ! nat j + int i - j else xs ! i)"
      by auto
    have j: "nat j < length xs" using assms by simp
    have yj: "ys ! nat j = xs ! nat j"
      using nth j assms(1) by simp
    have hi: "0 \<le> hi" "hi < int (length ys)"
      using step.hyps assms(1) le ys(2) by simp_all
    have "reset_after xs j (hi + 1) = Inr (ys[nat hi := xs ! nat j + hi - j])"
      using ys yj assms(1,2) hi
      by (simp add: reset_after_step [OF step.hyps] getitem_nonneg setitem_nonneg)
    moreover have "\<forall>i<length xs. (ys[nat hi := xs ! nat j + hi - j]) ! i =
           (if j < int i \<and> int i < hi + 1 then xs ! nat j + int i - j else xs ! i)"
    proof (intro allI impI)
      fix i assume i: "i < length xs"
      show "(ys[nat hi := xs ! nat j + hi - j]) ! i =
           (if j < int i \<and> int i < hi + 1 then xs ! nat j + int i - j else xs ! i)"
      proof (cases "i = nat hi")
        case True
        with hi step.hyps ys(2) i show ?thesis by simp
      next
        case False
        then have "int i \<noteq> hi" using hi by auto
        with False nth i show ?thesis by (simp add: less_le)
      qed
    qed
    ultimately show "\<exists>zs. reset_after xs j (hi + 1) = Inr zs \<and> length zs = length xs \<and>
        (\<forall>i<length xs. zs ! i =
           (if j < int i \<and> int i < hi + 1 then xs ! nat j + int i - j else xs ! i))"
      using ys(2) by simp
  qed
qed

text \<open>Incrementing position j and resetting the positions after it up to hi.\<close>

lemma excite_spec:
  assumes "0 \<le> j" and "j < hi" and "hi \<le> int (length xs)"
  shows "\<exists>zs ys. increment xs j = Inr zs \<and> reset_after zs j hi = Inr ys
      \<and> length zs = length xs \<and> length ys = length xs
      \<and> (\<forall>i<length xs. zs ! i = (if int i = j then xs ! i + 1 else xs ! i))
      \<and> (\<forall>i<length xs. ys ! i =
           (if int i < j \<or> hi \<le> int i then xs ! i else xs ! nat j + 1 + int i - j))"
proof -
  let ?zs = "xs[nat j := xs ! nat j + 1]"
  have j: "j < int (length xs)" "nat j < length xs" using assms by simp_all
  have inc: "increment xs j = Inr ?zs"
    using assms(1) j by (simp add: increment_nonneg)
  have "hi \<le> int (length ?zs) \<longrightarrow>
     (\<exists>ys. reset_after ?zs j hi = Inr ys \<and> length ys = length ?zs \<and>
        (\<forall>i<length ?zs. ys ! i =
           (if j < int i \<and> int i < hi then ?zs ! nat j + int i - j else ?zs ! i)))"
    by (rule reset_after_spec) (use assms j in simp_all)
  then obtain ys where ys: "reset_after ?zs j hi = Inr ys" "length ys = length xs"
    and nth: "\<forall>i<length xs. ys ! i =
           (if j < int i \<and> int i < hi then ?zs ! nat j + int i - j else ?zs ! i)"
    using assms(3) by auto
  have "\<forall>i<length xs. ys ! i =
           (if int i < j \<or> hi \<le> int i then xs ! i else xs ! nat j + 1 + int i - j)"
  proof (intro allI impI)
    fix i assume i: "i < length xs"
    show "ys ! i = (if int i < j \<or> hi \<le> int i then xs ! i else xs ! nat j + 1 + int i - j)"
    proof (cases "int i = j")
      case True
      then have "i = nat j" by simp
      with nth i j assms show ?thesis by simp
    next
      case False
      then have "i \<noteq> nat j" using assms(1) by auto
      with nth i j assms False show ?thesis by auto
    qed
  qed
  moreover have "\<forall>i<length xs. ?zs ! i = (if int i = j then xs ! i + 1 else xs ! i)"
    using assms(1) by (auto simp: nth_list_update)
  ultimately show ?thesis
    using inc ys by simp
qed

lemma excite_increasing:
  assumes sorted: "\<forall>a b. lo \<le> a \<and> a < b \<and> b < h \<longrightarrow> xs ! a < xs ! b"
    and j: "0 \<le> j" "lo \<le> nat j" "j < int h"
    and nth: "\<forall>i<h. ys ! i =
           (if int i < j \<or> int h \<le> int i then (xs ! i :: int) else xs ! nat j + 1 + int i - j)"
  shows "\<forall>a b. lo \<le> a \<and> a < b \<and> b < h \<longrightarrow> ys ! a < ys ! b"
proof (intro allI impI)
  fix a b assume ab: "lo \<le> a \<and> a < b \<and> b < h"
  have ya: "ys ! a = (if int a < j then xs ! a else xs ! nat j + 1 + int a - j)"
    using nth ab by auto
  have yb: "ys ! b = (if int b < j then xs ! b else xs ! nat j + 1 + int b - j)"
    using nth ab by auto
  show "ys ! a < ys ! b"
  proof (cases "int b < j")
    case True
    with ya yb ab sorted show ?thesis by auto
  next
    case False
    show ?thesis
    proof (cases "int a < j")
      case True
      then have "a < nat j" using j by simp
      moreover have "nat j < h" using j by simp
      ultimately have "xs ! a < xs ! nat j" using sorted ab by blast
      with ya yb True False show ?thesis by simp
    next
      case False
      with ya yb ab \<open>\<not> int b < j\<close> show ?thesis by simp
    qed
  qed
qed

lemma one_spin_excite_sorted:
  assumes j: "0 \<le> j_electron s" "j_electron s < int (nocc_up (wfn s))"
    and len: "length (new_occs s) = nocc_up (wfn s)"
    and sorted: "sorted_wrt (<) (new_occs s)"
  shows "\<exists>s2. one_spin_excite s = Inr s2 \<and> wfn s2 = wfn s \<and> old_occs s2 = new_occs s
      \<and> j_electron s2 = j_electron s \<and> length (new_occs s2) = nocc_up (wfn s)
      \<and> sorted_wrt (<) (new_occs s2)"
proof -
  let ?xs = "new_occs s" and ?j = "j_electron s" and ?n = "nocc_up (wfn s)"
  obtain zs ys where inc: "increment ?xs ?j = Inr zs" and res: "reset_after zs ?j (int ?n) = Inr ys"
    and lens: "length zs = length ?xs" "length ys = length ?xs"
    and nth: "\<forall>i<length ?xs. ys ! i =
           (if int i < ?j \<or> int ?n \<le> int i then ?xs ! i else ?xs ! nat ?j + 1 + int i - ?j)"
    using excite_spec [of ?j "int ?n" ?xs] j len by auto
  have last: "?j = int ?n - 1 \<Longrightarrow> ys = zs"
    using res by (simp add: reset_after_empty)
  have ex: "one_spin_excite s = Inr (s\<lparr>old_occs := ?xs, new_occs := ys\<rparr>)"
    using inc res last by (simp add: one_spin_excite_def Let_def)
  have "\<forall>a b. 0 \<le> a \<and> a < b \<and> b < ?n \<longrightarrow> ?xs ! a < ?xs ! b"
    using sorted len by (simp add: sorted_wrt_iff_nth_less)
  moreover note j(1)
  moreover have "0 \<le> nat ?j" by simp
  moreover note j(2) nth [unfolded len]
  ultimately have "\<forall>a b. 0 \<le> a \<and> a < b \<and> b < ?n \<longrightarrow> ys ! a < ys ! b"
    by (rule excite_increasing)
  then have "sorted_wrt (<) ys"
    using lens len by (simp add: sorted_wrt_iff_nth_less)
  with ex lens len show ?thesis by simp
qed

lemma one_spin_test_state:
  assumes "one_spin_test nodes t qs_neg s = Inr s1"
  shows "same_system (wfn s) (wfn s1) \<and> old_occs s1 = old_occs s
      \<and> (new_occs s1 = new_occs s \<and> j_electron s1 = int (nocc_up (wfn s)) - 1
          \<or> new_occs s1 = old_occs s \<and> j_electron s1 = j_electron s - 1)"
  using assms unfolding one_spin_test_def
  by (auto simp: same_system_def add_occs_def reject_def split: sum.splits if_splits)

lemma loop_state_rule:
  assumes "loop_state body n s = Some s'"
    and "I s"
    and "\<And>a b. I a \<Longrightarrow> body a = Continue b \<Longrightarrow> I b"
  shows "I s'"
  using assms(1,2)
proof (induction n arbitrary: s)
  case 0
  then show ?case by simp
next
  case (Suc n)
  then obtain b where b: "body s = Continue b" "loop_state body n b = Some s'"
    by (auto split: flow.splits)
  with Suc.prems(2) assms(3) have "I b" by blast
  with b(2) show ?case by (rule Suc.IH)
qed

lemma sorted_wrt_upt_int: "sorted_wrt (<) (map int [0..<n])"
  by (simp add: sorted_wrt_iff_nth_less)

lemma one_spin_inv_init: "one_spin_inv w (one_spin_init w)"
  by (simp add: one_spin_inv_def one_spin_init_def same_system_def sorted_wrt_upt_int)

lemma same_system_trans: "same_system a b \<Longrightarrow> same_system b c \<Longrightarrow> same_system a c"
  by (simp add: same_system_def)

lemma one_spin_inv_test:
  assumes "one_spin_inv w s" and "one_spin_test nodes t qs_neg s = Inr s1"
  shows "one_spin_inv w s1"
  using one_spin_test_state [OF assms(2)] assms(1) same_system_trans [of w "wfn s" "wfn s1"]
  unfolding one_spin_inv_def
  by (elim conjE disjE) (simp_all add: same_system_def)

lemma one_spin_inv_body:
  assumes "one_spin_inv w s" and "one_spin_body nodes t qs_neg s = Continue b"
  shows "one_spin_inv w b"
proof -
  from one_spin_body_cases [OF assms(2)] obtain s1 where
    test: "one_spin_test nodes t qs_neg s = Inr s1" and j: "j_electron s1 \<ge> 0"
    and ex: "one_spin_excite s1 = Inr b"
    by auto
  have inv1: "one_spin_inv w s1"
    using assms(1) test by (rule one_spin_inv_test)
  then have sys: "nocc_up (wfn s1) = nocc_up w" "same_system w (wfn s1)"
    by (simp_all add: one_spin_inv_def same_system_def)
  have "\<exists>s2. one_spin_excite s1 = Inr s2 \<and> wfn s2 = wfn s1 \<and> old_occs s2 = new_occs s1
      \<and> j_electron s2 = j_electron s1 \<and> length (new_occs s2) = nocc_up (wfn s1)
      \<and> sorted_wrt (<) (new_occs s2)"
    by (rule one_spin_excite_sorted) (use inv1 j sys in \<open>simp_all add: one_spin_inv_def\<close>)
  with ex have "wfn b = wfn s1" "old_occs b = new_occs s1" "j_electron b = j_electron s1"
    "length (new_occs b) = nocc_up (wfn s1)" "sorted_wrt (<) (new_occs b)"
    by auto
  with inv1 sys show ?thesis
    by (simp add: one_spin_inv_def)
qed

lemma sorted_wrt_less_last:
  assumes "sorted_wrt (<) (xs :: int list)" and "x \<in> set xs"
  shows "x \<le> xs ! (length xs - 1)"
proof -
  from assms(2) obtain i where i: "i < length xs" "xs ! i = x"
    by (auto simp: in_set_conv_nth)
  show ?thesis
  proof (cases "i = length xs - 1")
    case True
    with i show ?thesis by simp
  next
    case False
    with i have "i < length xs - 1" "length xs - 1 < length xs" by simp_all
    with assms(1) have "xs ! i < xs ! (length xs - 1)"
      by (simp add: sorted_wrt_iff_nth_less)
    with i show ?thesis by simp
  qed
qed

lemma one_spin_inv_check:
  assumes "one_spin_inv w s"
    and "getitem (new_occs s) (int (nocc_up (wfn s)) - 1) = Inr l"
  shows "l \<in> set (new_occs s) \<and> (\<forall>x\<in>set (new_occs s). x \<le> l)"
proof -
  let ?xs = "new_occs s"
  have len: "length ?xs = nocc_up (wfn s)" and sorted: "sorted_wrt (<) ?xs"
    using assms(1) by (simp_all add: one_spin_inv_def same_system_def)
  have pos: "0 < length ?xs"
    using assms(2) len by (auto simp: getitem_def py_index_def split: if_splits)
  then have l: "l = ?xs ! (length ?xs - 1)"
    using assms(2) len by (simp add: getitem_nonneg nat_diff_distrib)
  with pos have "l \<in> set ?xs" by simp
  with l sorted_wrt_less_last [OF sorted] show ?thesis by simp
qed

lemma one_spin_at_test:
  assumes "loop_state (one_spin_body nodes t qs_neg) n (one_spin_init w) = Some s"
  shows "one_spin_inv w s"
  using assms one_spin_inv_init
  by (rule loop_state_rule) (rule one_spin_inv_body)

lemma sorted_wrt_take_nth:
  "k \<le> length xs \<Longrightarrow>
     sorted_wrt (<) (take k xs) = (\<forall>a b. 0 \<le> a \<and> a < b \<and> b < k \<longrightarrow> (xs ! a :: int) < xs ! b)"
  by (auto simp: sorted_wrt_iff_nth_less)

lemma sorted_wrt_drop_nth:
  "sorted_wrt (<) (drop k xs) = (\<forall>a b. k \<le> a \<and> a < b \<and> b < length xs \<longrightarrow> (xs ! a :: int) < xs ! b)"
proof
  assume s: "sorted_wrt (<) (drop k xs)"
  show "\<forall>a b. k \<le> a \<and> a < b \<and> b < length xs \<longrightarrow> xs ! a < xs ! b"
  proof (intro allI impI)
    fix a b assume ab: "k \<le> a \<and> a < b \<and> b < length xs"
    then have "a - k < b - k" "b - k < length (drop k xs)" by auto
    with s have "drop k xs ! (a - k) < drop k xs ! (b - k)"
      by (simp only: sorted_wrt_iff_nth_less)
    with ab show "xs ! a < xs ! b" by simp
  qed
next
  assume "\<forall>a b. k \<le> a \<and> a < b \<and> b < length xs \<longrightarrow> xs ! a < xs ! b"
  then show "sorted_wrt (<) (drop k xs)"
    by (auto simp: sorted_wrt_iff_nth_less)
qed

lemma two_spin_excite_sorted:
  assumes j: "0 \<le> j_electron s" "j_electron s < int (nocc (wfn s))"
    and len: "length (new_occs s) = nocc (wfn s)"
    and up: "sorted_wrt (<) (take (nocc_up (wfn s)) (new_occs s))"
    and dn: "sorted_wrt (<) (drop (nocc_up (wfn s)) (new_occs s))"
  shows "\<exists>s2. two_spin_excite s = Inr s2 \<and> wfn s2 = wfn s \<and> old_occs s2 = new_occs s
      \<and> j_electron s2 = j_electron s \<and> length (new_occs s2) = nocc (wfn s)
      \<and> sorted_wrt (<) (take (nocc_up (wfn s)) (new_occs s2))
      \<and> sorted_wrt (<) (drop (nocc_up (wfn s)) (new_occs s2))"
proof -
  let ?xs = "new_occs s" and ?j = "j_electron s" and ?u = "nocc_up (wfn s)" and ?n = "nocc (wfn s)"
  have un: "?u \<le> ?n" by (simp add: nocc_def)
  have up': "\<forall>a b. 0 \<le> a \<and> a < b \<and> b < ?u \<longrightarrow> ?xs ! a < ?xs ! b"
    using up un len by (simp add: sorted_wrt_take_nth)
  have dn': "\<forall>a b. ?u \<le> a \<and> a < b \<and> b < ?n \<longrightarrow> ?xs ! a < ?xs ! b"
    using dn len by (simp add: sorted_wrt_drop_nth)
  show ?thesis
  proof (cases "?j < int ?u")
    case True
    obtain zs ys where inc: "increment ?xs ?j = Inr zs"
      and res: "reset_after zs ?j (int ?u) = Inr ys"
      and lens: "length ys = length ?xs"
      and nth: "\<forall>i<length ?xs. ys ! i =
           (if int i < ?j \<or> int ?u \<le> int i then ?xs ! i else ?xs ! nat ?j + 1 + int i - ?j)"
      using excite_spec [of ?j "int ?u" ?xs] j True un len by auto
    have ex: "two_spin_excite s = Inr (s\<lparr>old_occs := ?xs, new_occs := ys\<rparr>)"
      using inc res True by (simp add: two_spin_excite_def Let_def)
    have nth_u: "\<forall>i<?u. ys ! i =
           (if int i < ?j \<or> int ?u \<le> int i then ?xs ! i else ?xs ! nat ?j + 1 + int i - ?j)"
      using nth un len by simp
    have "0 \<le> nat ?j" by simp
    with up' j(1) have "\<forall>a b. 0 \<le> a \<and> a < b \<and> b < ?u \<longrightarrow> ys ! a < ys ! b"
      using True nth_u by (rule excite_increasing)
    then have s_up: "sorted_wrt (<) (take ?u ys)"
      using un len lens by (simp add: sorted_wrt_take_nth)
    have "\<forall>a b. ?u \<le> a \<and> a < b \<and> b < length ys \<longrightarrow> ys ! a < ys ! b"
      using dn' nth len lens by simp
    then have s_dn: "sorted_wrt (<) (drop ?u ys)"
      by (simp only: sorted_wrt_drop_nth)
    from ex lens len s_up s_dn show ?thesis by simp
  next
    case False
    obtain zs ys where inc: "increment ?xs ?j = Inr zs"
      and res: "reset_after zs ?j (int ?n) = Inr ys"
      and lens: "length ys = length ?xs"
      and nth: "\<forall>i<length ?xs. ys ! i =
           (if int i < ?j \<or> int ?n \<le> int i then ?xs ! i else ?xs ! nat ?j + 1 + int i - ?j)"
      using excite_spec [of ?j "int ?n" ?xs] j len by auto
    have last: "\<not> ?j < int ?n - 1 \<Longrightarrow> ys = zs"
      using res by (simp add: reset_after_empty)
    have ex: "two_spin_excite s = Inr (s\<lparr>old_occs := ?xs, new_occs := ys\<rparr>)"
      using inc res False last by (simp add: two_spin_excite_def Let_def)
    have lo: "?u \<le> nat ?j" using False j by simp
    from dn' j(1) lo j(2) nth [unfolded len]
    have "\<forall>a b. ?u \<le> a \<and> a < b \<and> b < ?n \<longrightarrow> ys ! a < ys ! b"
      by (rule excite_increasing)
    then have s_dn: "sorted_wrt (<) (drop ?u ys)"
      using len lens by (simp add: sorted_wrt_drop_nth)
    have "\<forall>a b. 0 \<le> a \<and> a < b \<and> b < ?u \<longrightarrow> ys ! a < ys ! b"
    proof (intro allI impI)
      fix a b assume ab: "0 \<le> a \<and> a < b \<and> b < ?u"
      with lo have "int a < ?j" "int b < ?j" "a < length ?xs" "b < length ?xs"
        using un len by auto
      with nth have "ys ! a = ?xs ! a" "ys ! b = ?xs ! b" by simp_all
      with up' ab show "ys ! a < ys ! b" by simp
    qed
    then have s_up: "sorted_wrt (<) (take ?u ys)"
      using un len lens by (simp add: sorted_wrt_take_nth)
    from ex lens len s_up s_dn show ?thesis by simp
  qed
qed

lemma two_spin_test_state:
  assumes "two_spin_test nodes t q_up_neg q_dn_neg s = Inr s1"
  shows "same_system (wfn s) (wfn s1) \<and> old_occs s1 = old_occs s
      \<and> (new_occs s1 = new_occs s \<and> j_electron s1 = int (nocc (wfn s)) - 1
          \<or> new_occs s1 = old_occs s \<and> j_electron s1 = j_electron s - 1)"
  using assms unfolding two_spin_test_def
  by (auto simp: same_system_def add_occs_def reject_def split: sum.splits if_splits)

lemma same_system_nocc: "same_system w w' \<Longrightarrow> nocc w' = nocc w"
  by (simp add: same_system_def nocc_def)

lemma two_spin_inv_init: "two_spin_inv w (two_spin_init w)"
  by (simp add: two_spin_inv_def two_spin_init_def same_system_def sorted_wrt_upt_int nocc_def)

lemma two_spin_inv_test:
  assumes "two_spin_inv w s" and "two_spin_test nodes t q_up_neg q_dn_neg s = Inr s1"
  shows "two_spin_inv w s1"
  using two_spin_test_state [OF assms(2)] assms(1) same_system_trans [of w "wfn s" "wfn s1"]
    same_system_nocc [of w "wfn s"]
  unfolding two_spin_inv_def
  by (elim conjE disjE) simp_all

lemma two_spin_inv_body:
  assumes "two_spin_inv w s" and "two_spin_body nodes t q_up_neg q_dn_neg s = Continue b"
  shows "two_spin_inv w b"
proof -
  from two_spin_body_cases [OF assms(2)] obtain s1 where
    test: "two_spin_test nodes t q_up_neg q_dn_neg s = Inr s1" and j: "j_electron s1 \<ge> 0"
    and ex: "two_spin_excite s1 = Inr b"
    by auto
  have inv1: "two_spin_inv w s1"
    using assms(1) test by (rule two_spin_inv_test)
  then have sys: "nocc_up (wfn s1) = nocc_up w" "nocc (wfn s1) = nocc w" "same_system w (wfn s1)"
    by (simp_all add: two_spin_inv_def same_system_def nocc_def)
  have "\<exists>s2. two_spin_excite s1 = Inr s2 \<and> wfn s2 = wfn s1 \<and> old_occs s2 = new_occs s1
      \<and> j_electron s2 = j_electron s1 \<and> length (new_occs s2) = nocc (wfn s1)
      \<and> sorted_wrt (<) (take (nocc_up (wfn s1)) (new_occs s2))
      \<and> sorted_wrt (<) (drop (nocc_up (wfn s1)) (new_occs s2))"
    by (rule two_spin_excite_sorted) (use inv1 j sys in \<open>simp_all add: two_spin_inv_def\<close>)
  with ex have "wfn b = wfn s1" "old_occs b = new_occs s1" "j_electron b = j_electron s1"
    "length (new_occs b) = nocc (wfn s1)" "sorted_wrt (<) (take (nocc_up (wfn s1)) (new_occs b))"
    "sorted_wrt (<) (drop (nocc_up (wfn s1)) (new_occs b))"
    by auto
  with inv1 sys show ?thesis
    by (simp add: two_spin_inv_def)
qed

lemma two_spin_at_test:
  assumes "loop_state (two_spin_body nodes t q_up_neg q_dn_neg) n (two_spin_init w) = Some s"
  shows "two_spin_inv w s"
  using assms two_spin_inv_init
  by (rule loop_state_rule) (rule two_spin_inv_body)

lemma getitem_pred:
  assumes "getitem xs (int k - 1) = Inr l" and "k \<le> length xs"
  shows "0 < length xs \<and> l = (if k = 0 then xs ! (length xs - 1) else xs ! (k - 1))"
proof (cases "k = 0")
  case True
  with assms(1) have pos: "0 < length xs"
    by (auto simp: getitem_def py_index_def split: if_splits)
  then have "nat (int (length xs) + - 1) = length xs - 1" by simp
  with assms(1) True pos show ?thesis
    by (auto simp: getitem_def py_index_def split: if_splits)
next
  case False
  then have "0 \<le> int k - 1" "int k - 1 < int (length xs)" "nat (int k - 1) = k - 1"
    using assms(2) by auto
  with assms(1) False show ?thesis
    by (auto simp: getitem_nonneg)
qed

lemma two_spin_inv_check:
  assumes "two_spin_inv w s"
    and "getitem (new_occs s) (int (nocc_up (wfn s)) - 1) = Inr lu"
    and "getitem (new_occs s) (int (nocc (wfn s)) - 1) = Inr ld"
  shows "lu \<in> set (new_occs s) \<and> ld \<in> set (new_occs s)
      \<and> (\<forall>x\<in>set (new_occs s). x \<le> max lu ld)"
proof -
  let ?xs = "new_occs s" and ?u = "nocc_up (wfn s)" and ?n = "nocc (wfn s)"
  have sys: "?u = nocc_up w" "?n = nocc w"
    using assms(1) by (simp_all add: two_spin_inv_def same_system_def nocc_def)
  have len: "length ?xs = ?n" and un: "?u \<le> ?n"
    and up: "sorted_wrt (<) (take ?u ?xs)" and dn: "sorted_wrt (<) (drop ?u ?xs)"
    using assms(1) sys by (simp_all add: two_spin_inv_def nocc_def)
  have pos: "0 < length ?xs"
    and ld: "ld = ?xs ! (length ?xs - 1)"
    using getitem_pred [of ?xs ?n ld] assms(3) len by (simp_all split: if_splits)
  have lu: "lu = (if ?u = 0 then ?xs ! (length ?xs - 1) else ?xs ! (?u - 1))"
    using getitem_pred [of ?xs ?u lu] assms(2) len un by simp
  have mem: "lu \<in> set ?xs" "ld \<in> set ?xs"
    using lu ld pos un len by auto
  have "\<forall>x\<in>set ?xs. x \<le> max lu ld"
  proof
    fix x assume "x \<in> set ?xs"
    then have "x \<in> set (take ?u ?xs) \<or> x \<in> set (drop ?u ?xs)"
      by (metis Un_iff append_take_drop_id set_append)
    then show "x \<le> max lu ld"
    proof
      assume x: "x \<in> set (take ?u ?xs)"
      then have "?u \<noteq> 0" by (cases "?u = 0") simp_all
      moreover from sorted_wrt_less_last [OF up x]
      have "x \<le> take ?u ?xs ! (length (take ?u ?xs) - 1)" .
      ultimately have "x \<le> lu"
        using lu un len by simp
      then show ?thesis by simp
    next
      assume x: "x \<in> set (drop ?u ?xs)"
      then have lt: "?u < length ?xs" by (cases "?u < length ?xs") auto
      from sorted_wrt_less_last [OF dn x]
      have "x \<le> drop ?u ?xs ! (length (drop ?u ?xs) - 1)" .
      with lt have "x \<le> ld"
        using ld by simp
      then show ?thesis by simp
    qed
  qed
  with mem show ?thesis by simp
qed

text \<open>
  C9. At every acceptance test of either selector (the state at the top of the loop
  after any number of passes), the indices of each spin channel of \<open>new_occs\<close> are
  strictly increasing. Hence an index read by the bounds check bounds every occupied
  index (for two spins, the larger of the two indices read does), and the check on the
  last index of each channel gives the same answer as asking whether any occupied index
  reaches or exceeds \<open>nbasis\<close>.
\<close>

theorem odometer_channels_strictly_increasing:
  "(loop_state (one_spin_body nodes t qs_neg) n (one_spin_init w) = Some s \<longrightarrow>
      sorted_wrt (<) (new_occs s)
      \<and> (\<forall>l. getitem (new_occs s) (int (nocc_up (wfn s)) - 1) = Inr l \<longrightarrow>
            l \<in> set (new_occs s) \<and> (\<forall>x\<in>set (new_occs s). x \<le> l)
            \<and> (int (nbasis (wfn s)) \<le> l) = (\<exists>x\<in>set (new_occs s). int (nbasis (wfn s)) \<le> x)))
   \<and> (loop_state (two_spin_body nodes t q_up_neg q_dn_neg) n (two_spin_init w) = Some s \<longrightarrow>
      sorted_wrt (<) (take (nocc_up (wfn s)) (new_occs s))
      \<and> sorted_wrt (<) (drop (nocc_up (wfn s)) (new_occs s))
      \<and> (\<forall>lu ld. getitem (new_occs s) (int (nocc_up (wfn s)) - 1) = Inr lu
              \<and> getitem (new_occs s) (int (nocc (wfn s)) - 1) = Inr ld \<longrightarrow>
            (\<forall>x\<in>set (new_occs s). x \<le> max lu ld)
            \<and> (int (nbasis (wfn s)) \<le> max lu ld)
                = (\<exists>x\<in>set (new_occs s). int (nbasis (wfn s)) \<le> x)))"
proof (intro conjI impI allI)
  assume run: "loop_state (one_spin_body nodes t qs_neg) n (one_spin_init w) = Some s"
  then have inv: "one_spin_inv w s" by (rule one_spin_at_test)
  then show "sorted_wrt (<) (new_occs s)" by (simp add: one_spin_inv_def)
  fix l assume l: "getitem (new_occs s) (int (nocc_up (wfn s)) - 1) = Inr l"
  from one_spin_inv_check [OF inv l]
  show "l \<in> set (new_occs s)" and max: "\<forall>x\<in>set (new_occs s). x \<le> l"
    by simp_all
  from one_spin_inv_check [OF inv l]
  show "(int (nbasis (wfn s)) \<le> l) = (\<exists>x\<in>set (new_occs s). int (nbasis (wfn s)) \<le> x)"
    by (meson order_trans)
next
  assume run: "loop_state (two_spin_body nodes t q_up_neg q_dn_neg) n (two_spin_init w) = Some s"
  then have inv: "two_spin_inv w s" by (rule two_spin_at_test)
  then have sys: "nocc_up (wfn s) = nocc_up w"
    by (simp add: two_spin_inv_def same_system_def)
  from inv sys show "sorted_wrt (<) (take (nocc_up (wfn s)) (new_occs s))"
    and "sorted_wrt (<) (drop (nocc_up (wfn s)) (new_occs s))"
    by (simp_all add: two_spin_inv_def)
  fix lu ld assume l: "getitem (new_occs s) (int (nocc_up (wfn s)) - 1) = Inr lu
              \<and> getitem (new_occs s) (int (nocc (wfn s)) - 1) = Inr ld"
  from two_spin_inv_check [OF inv] l
  have chk: "lu \<in> set (new_occs s)" "ld \<in> set (new_occs s)"
    "\<forall>x\<in>set (new_occs s). x \<le> max lu ld"
    by simp_all
  then show "\<forall>x\<in>set (new_occs s). x \<le> max lu ld" by simp
  have "max lu ld \<in> set (new_occs s)"
    using chk(1,2) by (simp add: max_def)
  with chk(3)
  show "(int (nbasis (wfn s)) \<le> max lu ld) = (\<exists>x\<in>set (new_occs s). int (nbasis (wfn s)) \<le> x)"
    by (meson order_trans)
qed

theorem odometer_channels_strictly_increasing_witness:
  "loop_state (one_spin_body [0, 0, 0, 5] 0 10) 3
       (one_spin_init \<lparr>kind = Doci, nbasis = 4, nocc_up = 2, nocc_dn = 2, dets = []\<rparr>)
     = Some \<lparr>new_occs = [0, 4], old_occs = [0, 3], j_electron = 1,
             wfn = \<lparr>kind = Doci, nbasis = 4, nocc_up = 2, nocc_dn = 2,
                     dets = [Occs1 [0, 1], Occs1 [0, 2], Occs1 [0, 3]]\<rparr>\<rparr>
   \<and> sorted_wrt (<) [0, 4 :: int]
   \<and> getitem [0, 4 :: int] (int 2 - 1) = Inr 4
   \<and> (int 4 \<le> 4) = (\<exists>x\<in>set [0, 4 :: int]. int 4 \<le> x)
   \<and> loop_state (two_spin_body [0, 0, 5] 0 10 10) 3
       (two_spin_init \<lparr>kind = Fullci, nbasis = 3, nocc_up = 1, nocc_dn = 1, dets = []\<rparr>)
     = Some \<lparr>new_occs = [0, 3], old_occs = [0, 2], j_electron = 1,
             wfn = \<lparr>kind = Fullci, nbasis = 3, nocc_up = 1, nocc_dn = 1,
                     dets = [Occs2 [[0], [0]], Occs2 [[0], [1]], Occs2 [[0], [2]]]\<rparr>\<rparr>
   \<and> sorted_wrt (<) (take 1 [0, 3 :: int]) \<and> sorted_wrt (<) (drop 1 [0, 3 :: int])
   \<and> getitem [0, 3 :: int] (int 1 - 1) = Inr 0 \<and> getitem [0, 3 :: int] (int 2 - 1) = Inr 3
   \<and> (int 3 \<le> max 0 3) = (\<exists>x\<in>set [0, 3 :: int]. int 3 \<le> x)"
proof -
  let ?s1 = "\<lparr>new_occs = [0, 4], old_occs = [0, 3], j_electron = 1,
             wfn = \<lparr>kind = Doci, nbasis = 4, nocc_up = 2, nocc_dn = 2,
                     dets = [Occs1 [0, 1], Occs1 [0, 2], Occs1 [0, 3]]\<rparr>\<rparr>"
  let ?s2 = "\<lparr>new_occs = [0, 3], old_occs = [0, 2], j_electron = 1,
             wfn = \<lparr>kind = Fullci, nbasis = 3, nocc_up = 1, nocc_dn = 1,
                     dets = [Occs2 [[0], [0]], Occs2 [[0], [1]], Occs2 [[0], [2]]]\<rparr>\<rparr>"
  have run1: "loop_state (one_spin_body [0, 0, 0, 5] 0 10) 3
       (one_spin_init \<lparr>kind = Doci, nbasis = 4, nocc_up = 2, nocc_dn = 2, dets = []\<rparr>) = Some ?s1"
    by code_simp
  have run2: "loop_state (two_spin_body [0, 0, 5] 0 10 10) 3
       (two_spin_init \<lparr>kind = Fullci, nbasis = 3, nocc_up = 1, nocc_dn = 1, dets = []\<rparr>) = Some ?s2"
    by code_simp
  have g1: "getitem [0, 4 :: int] (int 2 - 1) = Inr 4"
    by (simp add: getitem_def py_index_def)
  have g2: "getitem [0, 3 :: int] (int 1 - 1) = Inr 0" "getitem [0, 3 :: int] (int 2 - 1) = Inr 3"
    by (simp_all add: getitem_def py_index_def)
  note one = mp [OF conjunct1 [OF odometer_channels_strictly_increasing] run1]
  note two = mp [OF conjunct2 [OF odometer_channels_strictly_increasing] run2]
  have a: "sorted_wrt (<) [0, 4 :: int]"
    and b: "(int 4 \<le> 4) = (\<exists>x\<in>set [0, 4 :: int]. int 4 \<le> x)"
    using one g1 by simp_all
  have c: "sorted_wrt (<) (take 1 [0, 3 :: int])" "sorted_wrt (<) (drop 1 [0, 3 :: int])"
    and d: "(int 3 \<le> max 0 3) = (\<exists>x\<in>set [0, 3 :: int]. int 3 \<le> x)"
    using two g2 by (simp_all add: nocc_def)
  from run1 run2 g1 g2 a b c d show ?thesis
    by (intro conjI)
qed

subsection \<open>add_seniorities\<close>

lemma combos_length: "c \<in> set (combos xs r) \<Longrightarrow> length c = r"
  by (induction xs r arbitrary: c rule: combos.induct) auto

lemma combos_subset: "c \<in> set (combos xs r) \<Longrightarrow> set c \<subseteq> set xs"
proof (induction xs r arbitrary: c rule: combos.induct)
  case (3 x xs r)
  from "3.prems" show ?case
  proof (simp, elim disjE)
    assume "c \<in> (#) x ` set (combos xs r)"
    then obtain c' where "c = x # c'" "c' \<in> set (combos xs r)" by auto
    with "3.IH"(1) show "set c \<subseteq> insert x (set xs)" by auto
  next
    assume "c \<in> set (combos xs (Suc r))"
    with "3.IH"(2) show "set c \<subseteq> insert x (set xs)" by auto
  qed
qed simp_all

lemma combos_distinct: "c \<in> set (combos xs r) \<Longrightarrow> distinct xs \<Longrightarrow> distinct c"
proof (induction xs r arbitrary: c rule: combos.induct)
  case (3 x xs r)
  from "3.prems"(1) show ?case
  proof (simp, elim disjE)
    assume "c \<in> (#) x ` set (combos xs r)"
    then obtain c' where c': "c = x # c'" "c' \<in> set (combos xs r)" by auto
    with "3.IH"(1) "3.prems"(2) have "distinct c'" by simp
    moreover have "x \<notin> set c'" using combos_subset [OF c'(2)] "3.prems"(2) by auto
    ultimately show "distinct c" using c' by simp
  next
    assume "c \<in> set (combos xs (Suc r))"
    with "3.IH"(2) "3.prems"(2) show "distinct c" by simp
  qed
qed simp_all

lemma occ_up_array_row:
  assumes "c \<in> set (occ_up_array w)"
  shows "length c = nocc_up w" and "distinct c"
  using assms combos_length [of c] combos_distinct [of c "map int [0..<nbasis w]" "nocc_up w"]
  by (simp_all add: occ_up_array_def distinct_map)

lemma set_slice_exact:
  assumes "0 \<le> lo" and "lo \<le> hi" and "hi \<le> int (length row)" and "int (length vals) = hi - lo"
  shows "set_slice row lo hi vals = Inr (take (nat lo) row @ vals @ drop (nat hi) row)"
proof -
  have "nat lo \<le> length row" "nat hi \<le> length row"
    using assms by linarith+
  then have a: "slice_bound (length row) lo = nat lo" and b: "slice_bound (length row) hi = nat hi"
    using assms by (simp_all add: slice_bound_def min_def)
  have "max (nat lo) (nat hi) = nat hi" "nat hi - nat lo = length vals"
    using assms by simp_all
  then show ?thesis
    by (simp add: set_slice_def a b Let_def)
qed

lemma card_sym_diff_subset:
  assumes "distinct up" and "distinct dn" and "set dn \<subseteq> set up"
  shows "card ((set up - set dn) \<union> (set dn - set up)) = length up - length dn"
proof -
  have "(set up - set dn) \<union> (set dn - set up) = set up - set dn"
    using assms(3) by auto
  moreover have "card (set up - set dn) = card (set up) - card (set dn)"
    using assms(3) by (simp add: card_Diff_subset)
  moreover have "card (set up) = length up" "card (set dn) = length dn"
    using assms(1,2) by (simp_all add: distinct_card)
  ultimately show ?thesis
    by simp
qed

lemma card_sym_diff_mixed:
  assumes "distinct up" and "distinct i" and "distinct a"
    and "set i \<subseteq> set up" and "set a \<inter> set up = {}"
  shows "card ((set up - set (i @ a)) \<union> (set (i @ a) - set up))
           = (length up - length i) + length a"
proof -
  have eq: "(set up - set (i @ a)) \<union> (set (i @ a) - set up) = (set up - set i) \<union> set a"
    using assms(4,5) by auto
  have "(set up - set i) \<inter> set a = {}" using assms(5) by auto
  then have "card ((set up - set i) \<union> set a) = card (set up - set i) + card (set a)"
    by (simp add: card_Un_disjoint)
  moreover have "card (set up - set i) = card (set up) - card (set i)"
    using assms(4) by (simp add: card_Diff_subset)
  moreover have "card (set up) = length up" "card (set i) = length i" "card (set a) = length a"
    using assms(1,2,3) by (simp_all add: distinct_card)
  ultimately show ?thesis
    unfolding eq by simp
qed

lemma setdiff1d_props:
  "set (setdiff1d xs ys) \<inter> set ys = {}" "distinct xs \<Longrightarrow> distinct (setdiff1d xs ys)"
  by (auto simp: setdiff1d_def)

lemma for_each_rule:
  assumes "I s"
    and "\<And>x a. x \<in> set xs \<Longrightarrow> I a \<Longrightarrow> \<exists>b. f x a = (b, None) \<and> I b"
  shows "\<exists>b. for_each f xs s = (b, None) \<and> I b"
  using assms
proof (induction xs arbitrary: s)
  case Nil
  then show ?case by simp
next
  case (Cons x xs)
  from Cons.prems obtain a where a: "f x s = (a, None)" "I a"
    by (meson list.set_intros(1))
  have "\<exists>b. for_each f xs a = (b, None) \<and> I b"
    by (rule Cons.IH [OF a(2)]) (use Cons.prems(2) in auto)
  with a(1) show ?case by simp
qed

lemma seq_rule:
  assumes "f s = (a, None)" and "g a = (b, None)"
  shows "seq f g s = (b, None)"
  using assms by (simp add: seq_def)

lemma store_up_ok:
  assumes "sen_inv w sen w0 (w1, (r0, r1))" and "length vals = nocc_up w"
  shows "store_up vals (w1, (r0, r1)) = ((w1, (vals, r1)), None)"
    and "sen_inv w sen w0 (w1, (vals, r1))"
proof -
  have len: "length r0 = nocc_up w" using assms(1) by (simp add: sen_inv_def)
  have "set_slice r0 0 (int (length r0)) vals = Inr (take (nat 0) r0 @ vals @ drop (nat (int (length r0))) r0)"
    by (rule set_slice_exact) (use len assms(2) in simp_all)
  then show "store_up vals (w1, (r0, r1)) = ((w1, (vals, r1)), None)"
    by (simp add: store_up_def)
  show "sen_inv w sen w0 (w1, (vals, r1))"
    using assms by (simp add: sen_inv_def)
qed

lemma store_dn_ok:
  assumes "sen_inv w sen w0 (w1, (r0, r1))"
    and "0 \<le> lo" and "lo \<le> hi" and "hi \<le> int (nocc_up w)" and "int (length vals) = hi - lo"
  shows "store_dn lo hi vals (w1, (r0, r1))
           = ((w1, (r0, take (nat lo) r1 @ vals @ drop (nat hi) r1)), None)"
    and "sen_inv w sen w0 (w1, (r0, take (nat lo) r1 @ vals @ drop (nat hi) r1))"
proof -
  have len: "length r1 = nocc_up w" using assms(1) by (simp add: sen_inv_def)
  have "set_slice r1 lo hi vals = Inr (take (nat lo) r1 @ vals @ drop (nat hi) r1)"
    by (rule set_slice_exact) (use len assms in simp_all)
  then show "store_dn lo hi vals (w1, (r0, r1))
           = ((w1, (r0, take (nat lo) r1 @ vals @ drop (nat hi) r1)), None)"
    by (simp add: store_dn_def)
  have "length (take (nat lo) r1 @ vals @ drop (nat hi) r1) = nocc_up w"
    using len assms(2-5) by (simp add: min_def) linarith
  then show "sen_inv w sen w0 (w1, (r0, take (nat lo) r1 @ vals @ drop (nat hi) r1))"
    using assms(1) by (simp add: sen_inv_def)
qed

lemma insert_occs_ok:
  assumes "sen_inv w sen w0 (w1, (r0, r1))" and "has_seniority w sen (Occs2 [r0, r1])"
  shows "insert_occs (w1, (r0, r1)) = ((add_occs w1 (Occs2 [r0, r1]), (r0, r1)), None)"
    and "sen_inv w sen w0 (add_occs w1 (Occs2 [r0, r1]), (r0, r1))"
proof -
  show "insert_occs (w1, (r0, r1)) = ((add_occs w1 (Occs2 [r0, r1]), (r0, r1)), None)"
    by (simp add: insert_occs_def)
  have "inserted_only (has_seniority w sen) w0 (add_occs w1 (Occs2 [r0, r1]))"
    using assms by (simp add: sen_inv_def inserted_only_add)
  moreover have "same_system w (add_occs w1 (Occs2 [r0, r1]))"
    using assms(1) by (simp add: sen_inv_def same_system_def add_occs_def)
  ultimately show "sen_inv w sen w0 (add_occs w1 (Occs2 [r0, r1]), (r0, r1))"
    using assms(1) by (simp add: sen_inv_def)
qed

lemma has_seniority_mixed:
  assumes "distinct up" and "length up = nocc_up w"
    and "i \<in> set (combos up k)" and "a \<in> set (combos (setdiff1d brange up) m)"
    and "distinct brange" and "k + m = nocc_dn w" and "take (nocc_dn w) row1 = i @ a"
    and "sen = int (nocc_up w) - int k + int m"
  shows "has_seniority w sen (Occs2 [up, row1])"
proof -
  have i: "distinct i" "set i \<subseteq> set up" "length i = k"
    using assms(1,3) combos_distinct combos_subset combos_length by blast+
  have a: "distinct a" "set a \<inter> set up = {}" "length a = m"
    using assms(4,5) combos_distinct [of a] combos_subset [of a] combos_length [of a]
      setdiff1d_props [of brange up]
    by blast+
  have "k \<le> nocc_up w"
    using i assms(1,2) by (metis card_mono distinct_card finite_set)
  moreover have "card ((set up - set (i @ a)) \<union> (set (i @ a) - set up))
           = (length up - length i) + length a"
    using assms(1) i(1) a(1) i(2) a(2) by (rule card_sym_diff_mixed)
  ultimately show ?thesis
    using assms(2,7,8) i(3) a(3)
    by (simp add: has_seniority_def Let_def del: set_append)
qed

lemma valid_seniority_arith:
  assumes "\<not> invalid_seniority w sen" and "nocc_dn w \<le> nocc_up w"
  shows "0 \<le> (int (nocc w) - sen) div 2"
    and "(int (nocc w) - sen) div 2 \<le> int (nocc_dn w)"
    and "sen = int (nocc_up w) + int (nocc_dn w) - 2 * ((int (nocc w) - sen) div 2)"
proof -
  let ?u = "int (nocc_up w)" and ?d = "int (nocc_dn w)"
  have lo: "?u - ?d \<le> sen" and hi: "sen \<le> ?u" and par: "sen mod 2 = (?u - ?d) mod 2"
    using assms(1) by (auto simp add: invalid_seniority_def Let_def nvir_up_def)
  have n: "int (nocc w) = ?u + ?d" by (simp add: nocc_def)
  have even: "(?u + ?d - sen) mod 2 = 0"
    using par by presburger
  show "0 \<le> (int (nocc w) - sen) div 2"
    using hi n by simp
  show "(int (nocc w) - sen) div 2 \<le> ?d"
    using lo n by simp
  show "sen = ?u + ?d - 2 * ((int (nocc w) - sen) div 2)"
    using even n by presburger
qed

lemma has_seniority_zero:
  assumes "length up = nocc_up w" and "nocc_up w \<le> nocc_dn w"
  shows "has_seniority w 0 (Occs2 [up, up])"
  using assms by (simp add: has_seniority_def)

lemma add_seniority_zero_body:
  assumes inv: "sen_inv w 0 w0 a" and x: "x \<in> set (occ_up_array w)"
    and le: "nocc_up w \<le> nocc_dn w"
  shows "\<exists>b. seq (store_up x) (seq (store_dn_all x) insert_occs) a = (b, None) \<and> sen_inv w 0 w0 b"
proof -
  obtain w1 r0 r1 where a: "a = (w1, (r0, r1))" by (metis prod_cases3)
  have len: "length x = nocc_up w" using x by (rule occ_up_array_row)
  have r1: "length r1 = nocc_up w" using inv a by (simp add: sen_inv_def)
  note s1 = store_up_ok [OF inv [unfolded a] len]
  have s2: "store_dn 0 (int (length r1)) x (w1, (x, r1))
           = ((w1, (x, take (nat 0) r1 @ x @ drop (nat (int (length r1))) r1)), None)"
    "sen_inv w 0 w0 (w1, (x, take (nat 0) r1 @ x @ drop (nat (int (length r1))) r1))"
    by (rule store_dn_ok [OF s1(2)]; use r1 len in simp)+
  then have s2': "store_dn_all x (w1, (x, r1)) = ((w1, (x, x)), None)" "sen_inv w 0 w0 (w1, (x, x))"
    by (simp_all add: store_dn_all_def)
  note s3 = insert_occs_ok [OF s2'(2) has_seniority_zero [OF len le]]
  have "seq (store_up x) (seq (store_dn_all x) insert_occs) a
          = ((add_occs w1 (Occs2 [x, x]), (x, x)), None)"
    by (simp add: seq_def a s1(1) s2'(1) s3(1))
  with s3(2) show ?thesis by blast
qed

text \<open>The innermost step: write cells of the spin-down row and insert.\<close>

lemma add_seniority_inner:
  assumes inv: "sen_inv w sen w0 (w1, (up, r1))"
    and up: "up \<in> set (occ_up_array w)"
    and i: "i \<in> set (combos up k)"
    and a: "a \<in> set (combos (setdiff1d (map int [0..<nbasis w]) up) m)"
    and km: "k + m = nocc_dn w" and le: "nocc_dn w \<le> nocc_up w"
    and sen: "sen = int (nocc_up w) - int k + int m"
    and lo: "lo \<le> nocc_dn w" "length vals = nocc_dn w - lo" "take lo r1 @ vals = i @ a"
  shows "\<exists>b r1'. seq (store_dn (int lo) (int (nocc_dn w)) vals) insert_occs (w1, (up, r1))
             = (b, None) \<and> snd b = (up, r1') \<and> take lo r1' = take lo r1 \<and> sen_inv w sen w0 b"
proof -
  let ?r = "take (nat (int lo)) r1 @ vals @ drop (nat (int (nocc_dn w))) r1"
  have lr: "length r1 = nocc_up w" using inv by (simp add: sen_inv_def)
  have s1: "store_dn (int lo) (int (nocc_dn w)) vals (w1, (up, r1)) = ((w1, (up, ?r)), None)"
    "sen_inv w sen w0 (w1, (up, ?r))"
    by (rule store_dn_ok [OF inv]; use lo le in simp)+
  have "length (take lo r1 @ vals) = nocc_dn w"
    using lo(1,2) lr le by simp
  then have tk: "take (nocc_dn w) ?r = i @ a"
    using lo(3) by (metis append.assoc append_eq_conv_conj nat_int)
  have tk': "take lo ?r = take lo r1"
    using lo lr le by (simp add: min_def)
  have "has_seniority w sen (Occs2 [up, ?r])"
    using occ_up_array_row [OF up] i a km tk sen
    by (intro has_seniority_mixed [where i = i and a = a and k = k and m = m
          and brange = "map int [0..<nbasis w]"])
       (simp_all add: distinct_map)
  note s2 = insert_occs_ok [OF s1(2) this]
  have "seq (store_dn (int lo) (int (nocc_dn w)) vals) insert_occs (w1, (up, r1))
          = ((add_occs w1 (Occs2 [up, ?r]), (up, ?r)), None)"
    by (simp add: seq_def s1(1) insert_occs_def)
  with s2(2) tk' show ?thesis by auto
qed

lemma add_seniority_paired_body:
  assumes inv: "sen_inv w sen w0 a" and x: "x \<in> set (occ_up_array w)"
    and le: "nocc_dn w \<le> nocc_up w"
    and sen: "sen = int (nocc_up w) - int (nocc_dn w)"
  shows "\<exists>b. seq (store_up x)
             (for_each (\<lambda>occs_dn. seq (store_dn 0 (int (nocc_dn w)) occs_dn) insert_occs)
                (combos x (nocc_dn w))) a = (b, None)
           \<and> sen_inv w sen w0 b"
proof -
  obtain w1 r0 r1 where a: "a = (w1, (r0, r1))" by (metis prod_cases3)
  have len: "length x = nocc_up w" using x by (rule occ_up_array_row)
  note s1 = store_up_ok [OF inv [unfolded a] len]
  let ?I = "\<lambda>b. sen_inv w sen w0 b \<and> fst (snd b) = x"
  have "\<exists>b. for_each (\<lambda>occs_dn. seq (store_dn 0 (int (nocc_dn w)) occs_dn) insert_occs)
               (combos x (nocc_dn w)) (w1, (x, r1)) = (b, None) \<and> ?I b"
  proof (rule for_each_rule [where I = ?I])
    show "?I (w1, (x, r1))" using s1(2) by simp
  next
    fix c st assume c: "c \<in> set (combos x (nocc_dn w))" and st: "?I st"
    obtain w2 r2 where st': "st = (w2, (x, r2))" using st by (metis prod.collapse)
    have "\<exists>b r1'. seq (store_dn (int 0) (int (nocc_dn w)) c) insert_occs (w2, (x, r2))
             = (b, None) \<and> snd b = (x, r1') \<and> take 0 r1' = take 0 r2 \<and> sen_inv w sen w0 b"
      by (rule add_seniority_inner [where i = c and a = "[]" and k = "nocc_dn w" and m = 0])
         (use st st' x c le sen combos_length [OF c] in simp_all)
    then show "\<exists>b. seq (store_dn 0 (int (nocc_dn w)) c) insert_occs st = (b, None) \<and> ?I b"
      unfolding st' by auto
  qed
  then show ?thesis
    by (auto simp: seq_def a s1(1))
qed

lemma add_seniority_unpaired_body:
  assumes inv: "sen_inv w sen w0 a" and x: "x \<in> set (occ_up_array w)"
    and le: "nocc_dn w \<le> nocc_up w"
    and sen: "sen = int (nocc_up w) + int (nocc_dn w)"
  shows "\<exists>b. seq (store_up x)
             (for_each (\<lambda>occs_dn. seq (store_dn 0 (int (nocc_dn w)) occs_dn) insert_occs)
                (combos (setdiff1d (map int [0..<nbasis w]) x) (nocc_dn w))) a = (b, None)
           \<and> sen_inv w sen w0 b"
proof -
  obtain w1 r0 r1 where a: "a = (w1, (r0, r1))" by (metis prod_cases3)
  have len: "length x = nocc_up w" using x by (rule occ_up_array_row)
  note s1 = store_up_ok [OF inv [unfolded a] len]
  let ?I = "\<lambda>b. sen_inv w sen w0 b \<and> fst (snd b) = x"
  let ?virs = "setdiff1d (map int [0..<nbasis w]) x"
  have "\<exists>b. for_each (\<lambda>occs_dn. seq (store_dn 0 (int (nocc_dn w)) occs_dn) insert_occs)
               (combos ?virs (nocc_dn w)) (w1, (x, r1)) = (b, None) \<and> ?I b"
  proof (rule for_each_rule [where I = ?I])
    show "?I (w1, (x, r1))" using s1(2) by simp
  next
    fix c st assume c: "c \<in> set (combos ?virs (nocc_dn w))" and st: "?I st"
    obtain w2 r2 where st': "st = (w2, (x, r2))" using st by (metis prod.collapse)
    have "\<exists>b r1'. seq (store_dn (int 0) (int (nocc_dn w)) c) insert_occs (w2, (x, r2))
             = (b, None) \<and> snd b = (x, r1') \<and> take 0 r1' = take 0 r2 \<and> sen_inv w sen w0 b"
      by (rule add_seniority_inner [where i = "[]" and a = c and k = 0 and m = "nocc_dn w"])
         (use st st' x c le sen combos_length [OF c] in simp_all)
    then show "\<exists>b. seq (store_dn 0 (int (nocc_dn w)) c) insert_occs st = (b, None) \<and> ?I b"
      unfolding st' by auto
  qed
  then show ?thesis
    by (auto simp: seq_def a s1(1))
qed

lemma add_seniority_mixed_body:
  assumes inv: "sen_inv w sen w0 a" and x: "x \<in> set (occ_up_array w)"
    and le: "nocc_dn w \<le> nocc_up w" and k: "k \<le> nocc_dn w"
    and sen: "sen = int (nocc_up w) - int k + int (nocc_dn w - k)"
  shows "\<exists>b. seq (store_up x)
             (\<lambda>s1. case combinations x (int k) of
                 Inl e \<Rightarrow> (s1, Some e)
               | Inr cs_i \<Rightarrow>
                   for_each (\<lambda>occs_i_dn.
                       seq (store_dn 0 (int k) occs_i_dn)
                         (\<lambda>s2. case combinations (setdiff1d (map int [0..<nbasis w]) x)
                                      (int (nocc_dn w) - int k) of
                             Inl e \<Rightarrow> (s2, Some e)
                           | Inr cs_a \<Rightarrow>
                               for_each (\<lambda>occs_a_dn.
                                   seq (store_dn (int k) (int (nocc_dn w)) occs_a_dn) insert_occs)
                                 cs_a s2))
                     cs_i s1) a = (b, None)
           \<and> sen_inv w sen w0 b"
proof -
  obtain w1 r0 r1 where a: "a = (w1, (r0, r1))" by (metis prod_cases3)
  have len: "length x = nocc_up w" using x by (rule occ_up_array_row)
  note s1 = store_up_ok [OF inv [unfolded a] len]
  let ?virs = "setdiff1d (map int [0..<nbasis w]) x"
  let ?m = "nocc_dn w - k"
  let ?inner = "\<lambda>s2. for_each (\<lambda>occs_a_dn.
                   seq (store_dn (int k) (int (nocc_dn w)) occs_a_dn) insert_occs)
                 (combos ?virs ?m) s2"
  let ?I = "\<lambda>b. sen_inv w sen w0 b \<and> fst (snd b) = x"
  have cx: "combinations x (int k) = Inr (combos x k)"
    by (simp add: combinations_def)
  have cv: "combinations ?virs (int (nocc_dn w) - int k) = Inr (combos ?virs ?m)"
    using k by (simp add: combinations_def nat_diff_distrib)
  have "\<exists>b. for_each (\<lambda>occs_i_dn. seq (store_dn 0 (int k) occs_i_dn) ?inner)
               (combos x k) (w1, (x, r1)) = (b, None) \<and> ?I b"
  proof (rule for_each_rule [where I = ?I])
    show "?I (w1, (x, r1))" using s1(2) by simp
  next
    fix i st assume i: "i \<in> set (combos x k)" and st: "?I st"
    obtain w2 r2 where st': "st = (w2, (x, r2))" using st by (metis prod.collapse)
    have li: "length i = k" using i by (rule combos_length)
    have inv2: "sen_inv w sen w0 (w2, (x, r2))" using st st' by simp
    have s2: "store_dn 0 (int k) i (w2, (x, r2))
           = ((w2, (x, take (nat 0) r2 @ i @ drop (nat (int k)) r2)), None)"
      "sen_inv w sen w0 (w2, (x, take (nat 0) r2 @ i @ drop (nat (int k)) r2))"
      by (rule store_dn_ok [OF inv2]; use li k le in simp)+
    let ?J = "\<lambda>b. sen_inv w sen w0 b \<and> fst (snd b) = x \<and> take k (snd (snd b)) = i"
    have "\<exists>b. ?inner (w2, (x, i @ drop k r2)) = (b, None) \<and> ?J b"
    proof (rule for_each_rule [where I = ?J])
      show "?J (w2, (x, i @ drop k r2))" using s2(2) li by simp
    next
      fix c st2 assume c: "c \<in> set (combos ?virs ?m)" and st2: "?J st2"
      obtain w3 r3 where st2': "st2 = (w3, (x, r3))" using st2 by (metis prod.collapse)
      have "\<exists>b r1'. seq (store_dn (int k) (int (nocc_dn w)) c) insert_occs (w3, (x, r3))
             = (b, None) \<and> snd b = (x, r1') \<and> take k r1' = take k r3 \<and> sen_inv w sen w0 b"
        by (rule add_seniority_inner [where i = i and a = c and k = k and m = ?m])
           (use st2 st2' x i c le k sen combos_length [OF c] in simp_all)
      then show "\<exists>b. seq (store_dn (int k) (int (nocc_dn w)) c) insert_occs st2 = (b, None) \<and> ?J b"
        using st2 unfolding st2' by auto
    qed
    then show "\<exists>b. seq (store_dn 0 (int k) i) ?inner st = (b, None) \<and> ?I b"
      using s2(1) unfolding st' by (auto simp: seq_def)
  qed
  then show ?thesis
    by (auto simp: seq_def a s1(1) cx cv)
qed

lemma sen_inv_system:
  assumes "sen_inv w sen w0 s"
  shows "nocc_up (fst s) = nocc_up w" "nocc_dn (fst s) = nocc_dn w" "nocc (fst s) = nocc w"
  using assms by (auto simp: sen_inv_def same_system_def nocc_def)

lemma add_seniority_ok:
  assumes valid: "\<not> invalid_seniority w sen" and le: "nocc_dn w \<le> nocc_up w"
    and inv: "sen_inv w sen w0 s"
  shows "\<exists>b. add_seniority (occ_up_array w) (map int [0..<nbasis w]) sen s = (b, None)
           \<and> sen_inv w sen w0 b"
proof -
  let ?pairs = "(int (nocc w) - sen) div 2"
  note ar = valid_seniority_arith [OF valid le]
  note sys = sen_inv_system [OF inv]
  show ?thesis
  proof (cases "sen = 0")
    case True
    have "nocc_up w \<le> nocc_dn w"
      using valid True by (auto simp: invalid_seniority_def Let_def)
    then have "\<exists>b. for_each (\<lambda>occs_up. seq (store_up occs_up) (seq (store_dn_all occs_up) insert_occs))
               (occ_up_array w) s = (b, None) \<and> sen_inv w 0 w0 b"
      using inv True
      by (intro for_each_rule [where I = "sen_inv w 0 w0"] add_seniority_zero_body) simp_all
    with True show ?thesis
      by (simp add: add_seniority_def)
  next
    case nz: False
    show ?thesis
    proof (cases "?pairs = int (nocc_dn w)")
      case True
      then have sen: "sen = int (nocc_up w) - int (nocc_dn w)" using ar(3) by simp
      have "\<exists>b. for_each (\<lambda>occs_up. seq (store_up occs_up)
                 (for_each (\<lambda>occs_dn. seq (store_dn 0 (int (nocc_dn w)) occs_dn) insert_occs)
                    (combos occs_up (nocc_dn w))))
               (occ_up_array w) s = (b, None) \<and> sen_inv w sen w0 b"
        using inv le sen
        by (intro for_each_rule [where I = "sen_inv w sen w0"] add_seniority_paired_body)
      with nz True show ?thesis
        by (simp add: add_seniority_def Let_def sys)
    next
      case np: False
      show ?thesis
      proof (cases "?pairs = 0")
        case True
        then have sen: "sen = int (nocc_up w) + int (nocc_dn w)" using ar(3) by simp
        have "\<exists>b. for_each (\<lambda>occs_up. seq (store_up occs_up)
                 (for_each (\<lambda>occs_dn. seq (store_dn 0 (int (nocc_dn w)) occs_dn) insert_occs)
                    (combos (setdiff1d (map int [0..<nbasis w]) occs_up) (nocc_dn w))))
               (occ_up_array w) s = (b, None) \<and> sen_inv w sen w0 b"
          using inv le sen
          by (intro for_each_rule [where I = "sen_inv w sen w0"] add_seniority_unpaired_body)
        with nz np True show ?thesis
          by (simp add: add_seniority_def Let_def sys)
      next
        case False
        obtain k where k: "?pairs = int k" "k \<le> nocc_dn w"
          using ar(1,2) by (metis nat_int nat_le_iff zero_le_imp_eq_int)
        have sen: "sen = int (nocc_up w) - int k + int (nocc_dn w - k)"
          using ar(3) k by (simp add: of_nat_diff)
        have "\<exists>b. for_each (\<lambda>occs_up. seq (store_up occs_up)
             (\<lambda>s1. case combinations occs_up (int k) of
                 Inl e \<Rightarrow> (s1, Some e)
               | Inr cs_i \<Rightarrow>
                   for_each (\<lambda>occs_i_dn.
                       seq (store_dn 0 (int k) occs_i_dn)
                         (\<lambda>s2. case combinations (setdiff1d (map int [0..<nbasis w]) occs_up)
                                      (int (nocc_dn w) - int k) of
                             Inl e \<Rightarrow> (s2, Some e)
                           | Inr cs_a \<Rightarrow>
                               for_each (\<lambda>occs_a_dn.
                                   seq (store_dn (int k) (int (nocc_dn w)) occs_a_dn) insert_occs)
                                 cs_a s2))
                     cs_i s1))
               (occ_up_array w) s = (b, None) \<and> sen_inv w sen w0 b"
          (is "\<exists>b. ?loop = (b, None) \<and> _")
          using inv le k(2) sen
          by (intro for_each_rule [where I = "sen_inv w sen w0"] add_seniority_mixed_body)
        moreover have "int k \<noteq> int (nocc_dn w)" "int k \<noteq> 0"
          using np False k(1) by simp_all
        then have "add_seniority (occ_up_array w) (map int [0..<nbasis w]) sen s = ?loop"
          unfolding add_seniority_def Let_def sys k(1) using nz by (simp only: if_False)
        ultimately show ?thesis
          by (simp only:)
      qed
    qed
  qed
qed

lemma inserted_only_block:
  assumes "inserted_only P w0 w1"
  shows "\<exists>blk. dets w1 = dets w0 @ blk \<and> list_all P blk"
  using assms unfolding inserted_only_def
  by (metis append_take_drop_id)

lemma requests_blocks:
  assumes valid: "\<forall>sen\<in>set ss. \<not> invalid_seniority w sen" and le: "nocc_dn w \<le> nocc_up w"
    and sys: "same_system w w1" and len: "length r0 = nocc_up w" "length r1 = nocc_up w"
  shows "\<exists>w2 rows blocks.
           for_each (add_seniority (occ_up_array w) (map int [0..<nbasis w])) ss (w1, (r0, r1))
             = ((w2, rows), None)
         \<and> dets w2 = dets w1 @ concat blocks
         \<and> list_all2 (\<lambda>sen blk. list_all (has_seniority w sen) blk) ss blocks"
  using valid sys len
proof (induction ss arbitrary: w1 r0 r1)
  case Nil
  then show ?case by simp
next
  case (Cons sen ss)
  have inv: "sen_inv w sen w1 (w1, (r0, r1))"
    using Cons.prems by (simp add: sen_inv_def inserted_only_refl)
  have "\<not> invalid_seniority w sen" using Cons.prems(1) by simp
  from add_seniority_ok [OF this le inv] obtain w1' r0' r1' where
    step: "add_seniority (occ_up_array w) (map int [0..<nbasis w]) sen (w1, (r0, r1))
             = ((w1', (r0', r1')), None)"
    and inv': "sen_inv w sen w1 (w1', (r0', r1'))"
    by (metis prod_cases3)
  from inv' obtain blk where blk: "dets w1' = dets w1 @ blk" "list_all (has_seniority w sen) blk"
    using inserted_only_block [of "has_seniority w sen" w1 w1'] by (auto simp: sen_inv_def)
  have "\<exists>w2 rows blocks.
           for_each (add_seniority (occ_up_array w) (map int [0..<nbasis w])) ss (w1', (r0', r1'))
             = ((w2, rows), None)
         \<and> dets w2 = dets w1' @ concat blocks
         \<and> list_all2 (\<lambda>sen blk. list_all (has_seniority w sen) blk) ss blocks"
    by (rule Cons.IH) (use Cons.prems(1) inv' in \<open>simp_all add: sen_inv_def\<close>)
  then obtain w2 rows blocks where
    rest: "for_each (add_seniority (occ_up_array w) (map int [0..<nbasis w])) ss (w1', (r0', r1'))
             = ((w2, rows), None)"
    "dets w2 = dets w1' @ concat blocks"
    "list_all2 (\<lambda>sen blk. list_all (has_seniority w sen) blk) ss blocks"
    by blast
  have "for_each (add_seniority (occ_up_array w) (map int [0..<nbasis w])) (sen # ss) (w1, (r0, r1))
             = ((w2, rows), None)"
    using step rest(1) by simp
  moreover have "dets w2 = dets w1 @ concat (blk # blocks)"
    using blk(1) rest(2) by simp
  moreover have "list_all2 (\<lambda>sen blk. list_all (has_seniority w sen) blk) (sen # ss) (blk # blocks)"
    using blk(2) rest(3) by simp
  ultimately show ?case by blast
qed

text \<open>
  C3. For a two-spin wave function, when any of the requested seniorities \<open>s\<close> has
  \<open>s < smin\<close>, \<open>s > smax\<close> or a parity other than that of \<open>smin\<close>, with
  \<open>smin = nocc_up - nocc_dn\<close> and \<open>smax = min(nocc_up, nvir_up)\<close>, \<open>add_seniorities\<close>
  raises ValueError and the wave function it leaves is the one it was given: nothing is
  inserted, not even for valid requests that precede the invalid one.
\<close>

theorem add_seniorities_validates_first:
  assumes "kind w = Fullci"
    and "\<exists>sen\<in>set seniorities.
           sen < int (nocc_up w) - int (nocc_dn w)
         \<or> sen > min (int (nocc_up w)) (int (nbasis w) - int (nocc_up w))
         \<or> sen mod 2 \<noteq> (int (nocc_up w) - int (nocc_dn w)) mod 2"
  shows "add_seniorities junk w seniorities
           = (w, Some (ValueError ''invalid seniority number specified''))"
proof -
  have "list_ex (invalid_seniority w) seniorities"
    using assms(2) by (auto simp: list_ex_iff invalid_seniority_def Let_def nvir_up_def)
  with assms(1) show ?thesis
    by (simp add: add_seniorities_def)
qed

theorem add_seniorities_validates_first_witness:
  "add_seniorities (\<lambda>r c. 0) \<lparr>kind = Fullci, nbasis = 4, nocc_up = 2, nocc_dn = 2, dets = []\<rparr> [2, 1]
     = (\<lparr>kind = Fullci, nbasis = 4, nocc_up = 2, nocc_dn = 2, dets = []\<rparr>,
        Some (ValueError ''invalid seniority number specified''))"
  by (rule add_seniorities_validates_first) simp_all

text \<open>
  C4. For a two-spin wave function (with \<open>nocc_dn \<le> nocc_up\<close>, as the wave function
  classes require): when every requested seniority is valid, \<open>add_seniorities\<close> returns
  normally and what it inserted is one block of arrays per request, in the order of the
  requests, every array of the block of request \<open>s\<close> having exactly \<open>s\<close> singly occupied
  orbitals; and whenever \<open>add_seniorities\<close> returns normally, every requested \<open>s\<close> has
  \<open>smin \<le> s \<le> smax\<close> and the parity of \<open>smin\<close>.
\<close>

theorem add_seniorities_seniority:
  assumes "kind w = Fullci" and "nocc_dn w \<le> nocc_up w"
  shows "((\<forall>sen\<in>set seniorities. \<not> invalid_seniority w sen) \<longrightarrow>
            (\<exists>w' blocks. add_seniorities junk w seniorities = (w', None)
               \<and> dets w' = dets w @ concat blocks
               \<and> list_all2 (\<lambda>sen blk. list_all (has_seniority w sen) blk) seniorities blocks))
       \<and> (snd (add_seniorities junk w seniorities) = None \<longrightarrow>
            (\<forall>sen\<in>set seniorities.
               int (nocc_up w) - int (nocc_dn w) \<le> sen
             \<and> sen \<le> min (int (nocc_up w)) (int (nbasis w) - int (nocc_up w))
             \<and> sen mod 2 = (int (nocc_up w) - int (nocc_dn w)) mod 2))"
proof (intro conjI impI)
  assume valid: "\<forall>sen\<in>set seniorities. \<not> invalid_seniority w sen"
  then have nex: "\<not> list_ex (invalid_seniority w) seniorities"
    by (simp add: list_ex_iff)
  have "\<exists>w2 rows blocks.
           for_each (add_seniority (occ_up_array w) (map int [0..<nbasis w])) seniorities
             (w, np_empty2 junk (nocc_up w)) = ((w2, rows), None)
         \<and> dets w2 = dets w @ concat blocks
         \<and> list_all2 (\<lambda>sen blk. list_all (has_seniority w sen) blk) seniorities blocks"
    unfolding np_empty2_def
    by (rule requests_blocks [OF valid assms(2)]) (simp_all add: same_system_def)
  then show "\<exists>w' blocks. add_seniorities junk w seniorities = (w', None)
               \<and> dets w' = dets w @ concat blocks
               \<and> list_all2 (\<lambda>sen blk. list_all (has_seniority w sen) blk) seniorities blocks"
    using assms(1) nex by (auto simp: add_seniorities_def)
next
  assume "snd (add_seniorities junk w seniorities) = None"
  then have "\<not> list_ex (invalid_seniority w) seniorities"
    using assms(1) by (auto simp: add_seniorities_def split: if_splits)
  then show "\<forall>sen\<in>set seniorities.
               int (nocc_up w) - int (nocc_dn w) \<le> sen
             \<and> sen \<le> min (int (nocc_up w)) (int (nbasis w) - int (nocc_up w))
             \<and> sen mod 2 = (int (nocc_up w) - int (nocc_dn w)) mod 2"
    by (auto simp: list_ex_iff invalid_seniority_def Let_def nvir_up_def)
qed

theorem add_seniorities_seniority_witness:
  "add_seniorities (\<lambda>r c. - 1) \<lparr>kind = Fullci, nbasis = 3, nocc_up = 2, nocc_dn = 1, dets = []\<rparr> [1]
     = (\<lparr>kind = Fullci, nbasis = 3, nocc_up = 2, nocc_dn = 1,
          dets = [Occs2 [[0, 1], [0, - 1]], Occs2 [[0, 1], [1, - 1]],
                  Occs2 [[0, 2], [0, - 1]], Occs2 [[0, 2], [2, - 1]],
                  Occs2 [[1, 2], [1, - 1]], Occs2 [[1, 2], [2, - 1]]]\<rparr>, None)
   \<and> list_all (has_seniority \<lparr>kind = Fullci, nbasis = 3, nocc_up = 2, nocc_dn = 1, dets = []\<rparr> 1)
       [Occs2 [[0, 1], [0, - 1]], Occs2 [[0, 1], [1, - 1]],
        Occs2 [[0, 2], [0, - 1]], Occs2 [[0, 2], [2, - 1]],
        Occs2 [[1, 2], [1, - 1]], Occs2 [[1, 2], [2, - 1]]]
   \<and> \<not> invalid_seniority \<lparr>kind = Fullci, nbasis = 3, nocc_up = 2, nocc_dn = 1, dets = []\<rparr> 1"
proof -
  let ?w = "\<lparr>kind = Fullci, nbasis = 3, nocc_up = 2, nocc_dn = 1, dets = []\<rparr>"
  let ?ds = "[Occs2 [[0, 1], [0, - 1]], Occs2 [[0, 1], [1, - 1]],
              Occs2 [[0, 2], [0, - 1]], Occs2 [[0, 2], [2, - 1]],
              Occs2 [[1, 2], [1, - 1]], Occs2 [[1, 2], [2, - 1]]]"
  have run: "add_seniorities (\<lambda>r c. - 1) ?w [1] = (?w\<lparr>dets := ?ds\<rparr>, None)"
    by code_simp
  have valid: "\<not> invalid_seniority ?w 1"
    by (simp add: invalid_seniority_def nvir_up_def)
  have "kind ?w = Fullci" "nocc_dn ?w \<le> nocc_up ?w"
    by simp_all
  from add_seniorities_seniority [OF this, of "[1]" "\<lambda>r c. - 1"] valid
  obtain w' blocks where
    "add_seniorities (\<lambda>r c. - 1) ?w [1] = (w', None)" "dets w' = dets ?w @ concat blocks"
    "list_all2 (\<lambda>sen blk. list_all (has_seniority ?w sen) blk) [1] blocks"
    by auto
  with run have "list_all (has_seniority ?w 1) ?ds"
    by (auto simp: list_all2_Cons1)
  with run valid show ?thesis by simp
qed

subsection \<open>solve_cepa0\<close>




text \<open>
  C2, the least-squares path. With \<open>lstsq\<close> true the source calls \<^verbatim>\<open>sp.lsqr\<close> with the
  keyword \<^verbatim>\<open>iter_lime\<close>. Whenever the least-squares solver has no parameter of that
  name, as is the case for SciPy's \<^verbatim>\<open>lsqr\<close>, whose iteration limit is \<^verbatim>\<open>iter_lim\<close>,
  \<open>solve_cepa0\<close> never returns normally, and when the set-up of the linear system
  succeeds the exception is the TypeError of the call: the solver is never run and the
  caller's \<open>maxiter\<close> never reaches it.
\<close>

theorem solve_cepa0_lstsq_raises:
  assumes "''iter_lime'' \<notin> set (parameters lsqr)"
  shows "\<exists>err. solve_cepa0 lsqr lgmres mk_op args e0 c0 refind maxiter tol True = Inl err
           \<and> (\<forall>op su. handle_inputs mk_op args = Inr op \<and> cepa0_setup op e0 c0 refind = Inr su
                 \<longrightarrow> err = TypeError ''got an unexpected keyword argument iter_lime'')"
  using assms
  by (auto simp: solve_cepa0_def cepa0_combined_def py_call_def split: sum.splits prod.splits)

theorem solve_cepa0_lstsq_raises_witness:
  "solve_cepa0
     \<lparr>parameters = scipy_lsqr_keywords, run = (\<lambda>A b kw. Inr (lo_matvec A b))\<rparr>
     \<lparr>parameters = [''A'', ''b'', ''x0'', ''tol'', ''maxiter'', ''atol''],
      run = (\<lambda>A b kw. Inr (lo_matvec A b))\<rparr>
     (\<lambda>a b. Inl NotImplementedError)
     [ArgOp \<lparr>shape = (2, 2), ecore = 1 / 2, get_element = (\<lambda>i j. if i = j then 3 else 0),
             matvec = (\<lambda>x. x), matvec_cepa0 = (\<lambda>x r. x), rmatvec_cepa0 = (\<lambda>x r. x),
             rhs_cepa0 = (\<lambda>r. [0, 4])\<rparr>]
     None None 0 5000 (1 / 10 ^ 12) True
   = Inl (TypeError ''got an unexpected keyword argument iter_lime'')"
proof -
  let ?lsqr = "\<lparr>parameters = scipy_lsqr_keywords, run = (\<lambda>A b kw. Inr (lo_matvec A b))\<rparr>"
  let ?op = "\<lparr>shape = (2, 2), ecore = 1 / 2, get_element = (\<lambda>i j. if i = j then 3 else 0),
             matvec = (\<lambda>x. x), matvec_cepa0 = (\<lambda>x r. x), rmatvec_cepa0 = (\<lambda>x r. x),
             rhs_cepa0 = (\<lambda>r. [0, 4])\<rparr>"
  have k: "''iter_lime'' \<notin> set (parameters ?lsqr)"
    by (simp add: scipy_lsqr_keywords_def)
  have op: "handle_inputs (\<lambda>a b. Inl NotImplementedError) [ArgOp ?op] = Inr ?op"
    by (simp add: handle_inputs_def)
  have su: "\<exists>su. cepa0_setup ?op None None 0 = Inr su"
    by (simp add: cepa0_setup_def np_zeros_def np_inplace_def setitem_def py_index_def)
  from solve_cepa0_lstsq_raises [OF k] op su show ?thesis
    by metis
qed

subsection \<open>Cost along the sequence of accepted determinants\<close>


lemma one_spin_excite_nonneg:
  assumes j: "0 \<le> j_electron s" "j_electron s < int (nocc_up (wfn s))"
    and len: "length (new_occs s) = nocc_up (wfn s)"
    and nn: "list_all (\<lambda>x. 0 \<le> x) (new_occs s)"
    and ex: "one_spin_excite s = Inr s2"
  shows "list_all (\<lambda>x. 0 \<le> x) (new_occs s2)"
proof -
  let ?xs = "new_occs s" and ?j = "j_electron s" and ?n = "nocc_up (wfn s)"
  obtain zs ys where inc: "increment ?xs ?j = Inr zs" and res: "reset_after zs ?j (int ?n) = Inr ys"
    and lens: "length ys = length ?xs"
    and nth: "\<forall>i<length ?xs. ys ! i =
           (if int i < ?j \<or> int ?n \<le> int i then ?xs ! i else ?xs ! nat ?j + 1 + int i - ?j)"
    using excite_spec [of ?j "int ?n" ?xs] j len by auto
  have last: "?j = int ?n - 1 \<Longrightarrow> ys = zs"
    using res by (simp add: reset_after_empty)
  have "one_spin_excite s = Inr (s\<lparr>old_occs := ?xs, new_occs := ys\<rparr>)"
    using inc res last by (simp add: one_spin_excite_def Let_def)
  with ex have ys: "new_occs s2 = ys" by auto
  have all: "\<forall>i<length ?xs. 0 \<le> ?xs ! i"
    using nn by (simp add: list_all_length)
  have "\<forall>i<length ys. 0 \<le> ys ! i"
  proof (intro allI impI)
    fix i assume i: "i < length ys"
    have "0 \<le> ?xs ! nat ?j" using all j len by simp
    moreover have "0 \<le> ?xs ! i" using all i lens by simp
    ultimately show "0 \<le> ys ! i" using nth i lens by auto
  qed
  then show ?thesis
    unfolding ys by (simp add: list_all_length)
qed



















subsection \<open>The odometer loops end\<close>

text \<open>
  For every wave function, node table, \<open>t\<close> and \<open>p\<close>, some number of passes brings each
  selector to its \<^verbatim>\<open>break\<close> or to an exception, and more passes allowed do not change the
  outcome.
\<close>

lemma rank_fold_less:
  assumes "length ys = length xs" and "list_all (\<lambda>y. 0 \<le> y) ys" and "a < b"
  shows "fold (\<lambda>x acc. acc * (B + 1) + nat (int B - x)) ys a
       < fold (\<lambda>x acc. acc * (B + 1) + nat (int B - x)) xs b"
  using assms
proof (induction ys xs arbitrary: a b rule: list_induct2)
  case Nil
  then show ?case by simp
next
  case (Cons y ys x xs)
  have "0 \<le> y" using Cons.prems(1) by simp
  then have "nat (int B - y) \<le> B" by linarith
  then have "a * (B + 1) + nat (int B - y) < (a + 1) * (B + 1)" by simp
  also have "\<dots> \<le> b * (B + 1)" using Cons.prems(2) by (intro mult_le_mono1) simp
  also have "\<dots> \<le> b * (B + 1) + nat (int B - x)" by simp
  finally have "a * (B + 1) + nat (int B - y) < b * (B + 1) + nat (int B - x)" .
  moreover have "list_all (\<lambda>y. 0 \<le> y) ys" using Cons.prems(1) by simp
  ultimately show ?case using Cons.IH by simp
qed

lemma occs_rank_less:
  assumes len: "length ys = length xs" and j: "j < length xs"
    and pre: "\<forall>i<j. ys ! i = xs ! i" and at: "ys ! j = xs ! j + 1" and lt: "ys ! j \<le> int B"
    and nn: "list_all (\<lambda>y. 0 \<le> y) ys"
  shows "occs_rank B ys < occs_rank B xs"
proof -
  let ?F = "\<lambda>x acc. acc * (B + 1) + nat (int B - x)"
  have xs: "xs = take j xs @ xs ! j # drop (Suc j) xs" using j by (rule id_take_nth_drop)
  have ys: "ys = take j ys @ ys ! j # drop (Suc j) ys" using j len by (simp add: id_take_nth_drop)
  have tk: "take j ys = take j xs"
    using pre j len by (intro nth_equalityI) simp_all
  let ?a = "fold ?F (take j xs) 0"
  have "nat (int B - ys ! j) < nat (int B - xs ! j)" using at lt by simp
  then have "?a * (B + 1) + nat (int B - ys ! j) < ?a * (B + 1) + nat (int B - xs ! j)" by simp
  moreover have "length (drop (Suc j) ys) = length (drop (Suc j) xs)" using len by simp
  moreover have "list_all (\<lambda>y. 0 \<le> y) (drop (Suc j) ys)"
    using nn by (auto simp: list_all_iff dest: in_set_dropD)
  ultimately have "fold ?F (drop (Suc j) ys) (?a * (B + 1) + nat (int B - ys ! j))
       < fold ?F (drop (Suc j) xs) (?a * (B + 1) + nat (int B - xs ! j))"
    by (intro rank_fold_less)
  moreover have "occs_rank B (take j xs @ xs ! j # drop (Suc j) xs)
      = fold ?F (drop (Suc j) xs) (?a * (B + 1) + nat (int B - xs ! j))"
    by (simp add: occs_rank_def)
  then have "occs_rank B xs = fold ?F (drop (Suc j) xs) (?a * (B + 1) + nat (int B - xs ! j))"
    by (simp only: xs [symmetric])
  moreover have "occs_rank B (take j xs @ ys ! j # drop (Suc j) ys)
      = fold ?F (drop (Suc j) ys) (?a * (B + 1) + nat (int B - ys ! j))"
    by (simp add: occs_rank_def)
  then have "occs_rank B ys = fold ?F (drop (Suc j) ys) (?a * (B + 1) + nat (int B - ys ! j))"
    by (simp only: ys [unfolded tk, symmetric])
  ultimately show ?thesis by simp
qed

lemma while_true_fuel_mono:
  "while_true body f s = Some r \<Longrightarrow> f \<le> f' \<Longrightarrow> while_true body f' s = Some r"
proof (induction f arbitrary: s f')
  case 0
  then show ?case by simp
next
  case (Suc f)
  then obtain g where g: "f' = Suc g" "f \<le> g" by (cases f') auto
  show ?case
  proof (cases "body s")
    case (Continue s')
    with Suc.prems have "while_true body f s' = Some r" by simp
    from Suc.IH [OF this g(2)] Continue g(1) show ?thesis by simp
  qed (use Suc.prems g in auto)
qed

lemma while_true_terminates:
  assumes "T s"
    and "\<And>a b. T a \<Longrightarrow> body a = Continue b \<Longrightarrow> T b \<and> m b < (m a :: nat)"
  shows "\<exists>r. while_true body (Suc (m s)) s = Some r"
  using assms(1)
proof (induction "m s" arbitrary: s rule: less_induct)
  case less
  show ?case
  proof (cases "body s")
    case (Continue b)
    from assms(2) [OF less.prems Continue] have b: "T b" "m b < m s" by simp_all
    from less.hyps [OF b(2) b(1)] obtain r where r: "while_true body (Suc (m b)) b = Some r"
      by (elim exE)
    have "Suc (m b) \<le> m s" using b(2) by simp
    with r have "while_true body (m s) b = Some r"
      by (rule while_true_fuel_mono)
    with Continue show ?thesis by simp
  next
    case (Break b)
    then show ?thesis by simp
  next
    case (Raised e b)
    then show ?thesis by simp
  qed
qed

lemma excited_at_spec:
  assumes "0 \<le> j" and "j < hi" and "hi \<le> int (length a)" and "excited_at a j hi b"
  shows "length b = length a"
    and "\<forall>i<length a. b ! i =
           (if int i < j \<or> hi \<le> int i then a ! i else a ! nat j + 1 + int i - j)"
proof -
  obtain zs ys where inc: "increment a j = Inr zs" and res: "reset_after zs j hi = Inr ys"
    and lens: "length ys = length a"
    and nth: "\<forall>i<length a. ys ! i =
           (if int i < j \<or> hi \<le> int i then a ! i else a ! nat j + 1 + int i - j)"
    using excite_spec [OF assms(1-3)] by auto
  have "b = ys" using assms(4) inc res by (simp add: excited_at_def)
  with lens nth show "length b = length a"
    and "\<forall>i<length a. b ! i =
           (if int i < j \<or> hi \<le> int i then a ! i else a ! nat j + 1 + int i - j)"
    by simp_all
qed

lemma one_spin_excite_at:
  assumes j: "0 \<le> j_electron s" "j_electron s < int (nocc_up (wfn s))"
    and len: "length (new_occs s) = nocc_up (wfn s)"
    and ex: "one_spin_excite s = Inr s2"
  shows "excited_at (new_occs s) (j_electron s) (int (nocc_up (wfn s))) (new_occs s2)"
    and "old_occs s2 = new_occs s" and "j_electron s2 = j_electron s"
proof -
  let ?xs = "new_occs s" and ?j = "j_electron s" and ?n = "nocc_up (wfn s)"
  obtain zs ys where inc: "increment ?xs ?j = Inr zs" and res: "reset_after zs ?j (int ?n) = Inr ys"
    using excite_spec [of ?j "int ?n" ?xs] j len by auto
  have last: "?j = int ?n - 1 \<Longrightarrow> ys = zs"
    using res by (simp add: reset_after_empty)
  have "one_spin_excite s = Inr (s\<lparr>old_occs := ?xs, new_occs := ys\<rparr>)"
    using inc res last by (simp add: one_spin_excite_def Let_def)
  with ex have s2: "s2 = s\<lparr>old_occs := ?xs, new_occs := ys\<rparr>" by simp
  show "excited_at ?xs ?j (int ?n) (new_occs s2)"
    using inc res s2 by (simp add: excited_at_def)
  show "old_occs s2 = ?xs" "j_electron s2 = ?j" using s2 by simp_all
qed

lemma one_spin_test_outcome:
  assumes "one_spin_test nodes t qs_neg s = Inr s1"
  shows "s1 = reject s \<or>
        (\<exists>l. getitem (new_occs s) (int (nocc_up (wfn s)) - 1) = Inr l \<and> l < int (nbasis (wfn s))
            \<and> new_occs s1 = new_occs s \<and> old_occs s1 = old_occs s
            \<and> j_electron s1 = int (nocc_up (wfn s)) - 1)"
  using assms unfolding one_spin_test_def
  by (auto split: sum.splits if_splits)

lemma one_spin_pre_test:
  assumes "one_spin_pre w s" and "one_spin_test nodes t qs_neg s = Inr s1"
  shows "one_spin_pre w s1"
proof -
  have "one_spin_inv w s1"
    using assms by (auto simp: one_spin_pre_def intro: one_spin_inv_test)
  moreover have "new_occs s1 = new_occs s \<or> new_occs s1 = old_occs s" "old_occs s1 = old_occs s"
    using one_spin_test_state [OF assms(2)] by auto
  ultimately show ?thesis
    using assms(1) by (auto simp: one_spin_pre_def)
qed

lemma one_spin_pre_body:
  assumes pre: "one_spin_pre w s" and body: "one_spin_body nodes t qs_neg s = Continue b"
  shows "one_spin_top w b"
proof -
  from one_spin_body_cases [OF body] obtain s1 where
    test: "one_spin_test nodes t qs_neg s = Inr s1" and j: "0 \<le> j_electron s1"
    and ex: "one_spin_excite s1 = Inr b"
    by auto
  have pre1: "one_spin_pre w s1" using pre test by (rule one_spin_pre_test)
  then have inv1: "one_spin_inv w s1" by (simp add: one_spin_pre_def)
  then have sys: "nocc_up (wfn s1) = nocc_up w" and len: "length (new_occs s1) = nocc_up w"
    and jn: "j_electron s1 < int (nocc_up w)"
    by (simp_all add: one_spin_inv_def same_system_def)
  have invb: "one_spin_inv w b"
    using pre body by (auto simp: one_spin_pre_def intro: one_spin_inv_body)
  note at = one_spin_excite_at [of s1 b, unfolded sys, OF j jn len ex]
  have nn: "list_all (\<lambda>x. 0 \<le> x) (new_occs b)"
    using one_spin_excite_nonneg [of s1 b] j jn len sys ex pre1
    by (simp add: one_spin_pre_def)
  show ?thesis
    using invb nn at j pre1 by (simp add: one_spin_top_def one_spin_pre_def)
qed

lemma one_spin_rank_body:
  assumes top: "one_spin_top w s" and body: "one_spin_body nodes t qs_neg s = Continue b"
  shows "one_spin_rank w b < one_spin_rank w s"
proof -
  let ?n = "nocc_up w" and ?B = "nbasis w"
  from one_spin_body_cases [OF body] obtain s1 where
    test: "one_spin_test nodes t qs_neg s = Inr s1" and j1: "0 \<le> j_electron s1"
    and ex: "one_spin_excite s1 = Inr b"
    by auto
  have pre: "one_spin_pre w s" and j: "0 \<le> j_electron s"
    and at: "excited_at (old_occs s) (j_electron s) (int ?n) (new_occs s)"
    using top by (simp_all add: one_spin_top_def)
  then have inv: "one_spin_inv w s" by (simp add: one_spin_pre_def)
  then have sys: "nocc_up (wfn s) = ?n" "nbasis (wfn s) = ?B"
    and len: "length (new_occs s) = ?n" "length (old_occs s) = ?n"
    and jn: "j_electron s < int ?n" and sorted: "sorted_wrt (<) (new_occs s)"
    by (simp_all add: one_spin_inv_def same_system_def)
  have pre1: "one_spin_pre w s1" using pre test by (rule one_spin_pre_test)
  then have sys1: "nocc_up (wfn s1) = ?n" and len1: "length (new_occs s1) = ?n"
    and jn1: "j_electron s1 < int ?n"
    by (simp_all add: one_spin_pre_def one_spin_inv_def same_system_def)
  note b = one_spin_excite_at(2,3) [of s1 b, unfolded sys1, OF j1 jn1 len1 ex]
  from one_spin_test_outcome [OF test] show ?thesis
  proof (elim disjE exE conjE)
    assume "s1 = reject s"
    then have "new_occs s1 = old_occs s" "j_electron s1 = j_electron s - 1"
      by (simp_all add: reject_def)
    with b j show ?thesis by (simp add: one_spin_rank_def)
  next
    fix l
    assume l: "getitem (new_occs s) (int (nocc_up (wfn s)) - 1) = Inr l" "l < int (nbasis (wfn s))"
      and s1: "new_occs s1 = new_occs s" "j_electron s1 = int (nocc_up (wfn s)) - 1"
    note spec = excited_at_spec [OF j _ _ at]
    have nj: "nat (j_electron s) < length (old_occs s)" using j jn len by simp
    have last: "\<forall>x\<in>set (new_occs s). x \<le> l"
      using one_spin_inv_check [OF inv l(1)] by simp
    have "new_occs s ! nat (j_electron s) \<in> set (new_occs s)"
      using nj len by simp
    with last l(2) sys have le: "new_occs s ! nat (j_electron s) \<le> int ?B" by fastforce
    have "occs_rank ?B (new_occs s) < occs_rank ?B (old_occs s)"
    proof (rule occs_rank_less [where j = "nat (j_electron s)"])
      show "length (new_occs s) = length (old_occs s)" using len by simp
      show "nat (j_electron s) < length (old_occs s)" by (rule nj)
      show "\<forall>i<nat (j_electron s). new_occs s ! i = old_occs s ! i"
      proof (intro allI impI)
        fix i assume "i < nat (j_electron s)"
        then have "int i < j_electron s" "i < length (old_occs s)" using nj by simp_all
        with spec(2) jn len show "new_occs s ! i = old_occs s ! i" by simp
      qed
      show "new_occs s ! nat (j_electron s) = old_occs s ! nat (j_electron s) + 1"
        using spec(2) jn len j nj by simp
      show "new_occs s ! nat (j_electron s) \<le> int ?B" by (rule le)
      show "list_all (\<lambda>y. 0 \<le> y) (new_occs s)" using pre by (simp add: one_spin_pre_def)
    qed
    then have "Suc (occs_rank ?B (new_occs s)) \<le> occs_rank ?B (old_occs s)" by simp
    then have "Suc (occs_rank ?B (new_occs s)) * (?n + 1) \<le> occs_rank ?B (old_occs s) * (?n + 1)"
      by (rule mult_le_mono1)
    moreover have "nat (j_electron b + 1) \<le> ?n"
      using b s1 sys by simp
    ultimately show ?thesis
      using b s1 by (simp add: one_spin_rank_def)
  qed
qed

lemma one_spin_pre_init: "one_spin_pre w (one_spin_init w)"
  using one_spin_inv_init [of w]
  by (simp add: one_spin_pre_def one_spin_init_def list_all_iff)

lemma odometer_one_spin_terminates:
  "\<exists>fuel r. odometer_one_spin fuel w nodes t p = Some r"
proof (cases "threshold nodes t p (new_occs (one_spin_init w))")
  case (Inl e)
  then show ?thesis by (simp add: odometer_one_spin_def)
next
  case (Inr qs_neg)
  let ?body = "one_spin_body nodes t qs_neg"
  have "\<exists>fuel r. while_true ?body fuel (one_spin_init w) = Some r"
  proof (cases "?body (one_spin_init w)")
    case (Continue b)
    have "one_spin_top w b"
      using one_spin_pre_init Continue by (rule one_spin_pre_body)
    then have "\<exists>r. while_true ?body (Suc (one_spin_rank w b)) b = Some r"
    proof (rule while_true_terminates)
      fix a c assume a: "one_spin_top w a" "?body a = Continue c"
      then have "one_spin_pre w a" by (simp add: one_spin_top_def)
      with a show "one_spin_top w c \<and> one_spin_rank w c < one_spin_rank w a"
        using one_spin_pre_body one_spin_rank_body by blast
    qed
    then obtain r where "while_true ?body (Suc (one_spin_rank w b)) b = Some r" by (elim exE)
    with Continue have "while_true ?body (Suc (Suc (one_spin_rank w b))) (one_spin_init w) = Some r"
      by simp
    then show ?thesis by (intro exI)
  next
    case (Break b)
    then have "while_true ?body (Suc 0) (one_spin_init w) = Some (b, None)" by simp
    then show ?thesis by (intro exI)
  next
    case (Raised e b)
    then have "while_true ?body (Suc 0) (one_spin_init w) = Some (b, Some e)" by simp
    then show ?thesis by (intro exI)
  qed
  then obtain fuel r where r: "while_true ?body fuel (one_spin_init w) = Some r" by (elim exE)
  obtain s e where "r = (s, e)" by (cases r)
  with r Inr have "odometer_one_spin fuel w nodes t p = Some (wfn s, e)"
    by (simp add: odometer_one_spin_def)
  then show ?thesis by (intro exI)
qed

lemma reset_bound_range:
  assumes "0 \<le> j" and "j < int (nocc w)"
  shows "j < reset_bound w j" and "reset_bound w j \<le> int (nocc w)"
  using assms by (simp_all add: reset_bound_def nocc_def)

lemma two_spin_excite_at:
  assumes j: "0 \<le> j_electron s" "j_electron s < int (nocc (wfn s))"
    and len: "length (new_occs s) = nocc (wfn s)"
    and ex: "two_spin_excite s = Inr s2"
  shows "excited_at (new_occs s) (j_electron s) (reset_bound (wfn s) (j_electron s)) (new_occs s2)"
    and "old_occs s2 = new_occs s" and "j_electron s2 = j_electron s"
proof -
  let ?xs = "new_occs s" and ?j = "j_electron s" and ?h = "reset_bound (wfn s) (j_electron s)"
  note h = reset_bound_range [OF j]
  obtain zs ys where inc: "increment ?xs ?j = Inr zs" and res: "reset_after zs ?j ?h = Inr ys"
    using excite_spec [of ?j ?h ?xs] j h len by auto
  have "two_spin_excite s = Inr (s\<lparr>old_occs := ?xs, new_occs := ys\<rparr>)"
  proof (cases "?j < int (nocc_up (wfn s))")
    case True
    with inc res show ?thesis
      by (simp add: two_spin_excite_def Let_def reset_bound_def)
  next
    case False
    then have res': "reset_after zs ?j (int (nocc (wfn s))) = Inr ys"
      using res by (simp add: reset_bound_def)
    then have "\<not> ?j < int (nocc (wfn s)) - 1 \<Longrightarrow> ys = zs"
      by (simp add: reset_after_empty)
    with inc res' False show ?thesis
      by (simp add: two_spin_excite_def Let_def)
  qed
  with ex have s2: "s2 = s\<lparr>old_occs := ?xs, new_occs := ys\<rparr>" by simp
  show "excited_at ?xs ?j ?h (new_occs s2)"
    using inc res s2 by (simp add: excited_at_def)
  show "old_occs s2 = ?xs" "j_electron s2 = ?j" using s2 by simp_all
qed

lemma excited_at_nonneg:
  assumes "0 \<le> j" and "j < hi" and "hi \<le> int (length a)" and "excited_at a j hi b"
    and nn: "list_all (\<lambda>x. 0 \<le> x) a"
  shows "list_all (\<lambda>x. 0 \<le> x) b"
proof -
  note spec = excited_at_spec [OF assms(1-4)]
  have all: "\<forall>i<length a. 0 \<le> a ! i"
    using nn by (simp add: list_all_length)
  have "\<forall>i<length b. 0 \<le> b ! i"
  proof (intro allI impI)
    fix i assume i: "i < length b"
    have "0 \<le> a ! nat j" using all assms(1-3) by simp
    moreover have "0 \<le> a ! i" using all i spec(1) by simp
    ultimately show "0 \<le> b ! i" using spec i by auto
  qed
  then show ?thesis by (simp add: list_all_length)
qed

lemma two_spin_test_outcome:
  assumes "two_spin_test nodes t q_up_neg q_dn_neg s = Inr s1"
  shows "s1 = reject s \<or>
        (\<exists>lu ld. getitem (new_occs s) (int (nocc_up (wfn s)) - 1) = Inr lu
            \<and> getitem (new_occs s) (int (nocc (wfn s)) - 1) = Inr ld
            \<and> max lu ld < int (nbasis (wfn s))
            \<and> new_occs s1 = new_occs s \<and> old_occs s1 = old_occs s
            \<and> j_electron s1 = int (nocc (wfn s)) - 1)"
  using assms unfolding two_spin_test_def
  by (auto split: sum.splits if_splits)

lemma two_spin_pre_test:
  assumes "two_spin_pre w s" and "two_spin_test nodes t q_up_neg q_dn_neg s = Inr s1"
  shows "two_spin_pre w s1"
proof -
  have "two_spin_inv w s1"
    using assms by (auto simp: two_spin_pre_def intro: two_spin_inv_test)
  moreover have "new_occs s1 = new_occs s \<or> new_occs s1 = old_occs s" "old_occs s1 = old_occs s"
    using two_spin_test_state [OF assms(2)] by auto
  ultimately show ?thesis
    using assms(1) by (auto simp: two_spin_pre_def)
qed

lemma two_spin_pre_system:
  assumes "two_spin_pre w s"
  shows "nocc_up (wfn s) = nocc_up w" "nocc (wfn s) = nocc w" "nbasis (wfn s) = nbasis w"
    "reset_bound (wfn s) j = reset_bound w j"
    "length (new_occs s) = nocc w" "length (old_occs s) = nocc w" "j_electron s < int (nocc w)"
  using assms
  by (simp_all add: two_spin_pre_def two_spin_inv_def same_system_def nocc_def reset_bound_def)

lemma two_spin_pre_body:
  assumes pre: "two_spin_pre w s" and body: "two_spin_body nodes t q_up_neg q_dn_neg s = Continue b"
  shows "two_spin_top w b"
proof -
  from two_spin_body_cases [OF body] obtain s1 where
    test: "two_spin_test nodes t q_up_neg q_dn_neg s = Inr s1" and j: "0 \<le> j_electron s1"
    and ex: "two_spin_excite s1 = Inr b"
    by auto
  have pre1: "two_spin_pre w s1" using pre test by (rule two_spin_pre_test)
  note sys = two_spin_pre_system [OF pre1]
  have invb: "two_spin_inv w b"
    using pre body by (auto simp: two_spin_pre_def intro: two_spin_inv_body)
  have at: "excited_at (new_occs s1) (j_electron s1) (reset_bound w (j_electron s1)) (new_occs b)"
    "old_occs b = new_occs s1" "j_electron b = j_electron s1"
    using two_spin_excite_at [of s1 b] j sys ex by simp_all
  note h = reset_bound_range [OF j sys(7)]
  have h': "reset_bound w (j_electron s1) \<le> int (length (new_occs s1))" using h(2) sys(5) by simp
  have "list_all (\<lambda>x. 0 \<le> x) (new_occs s1)" using pre1 by (simp add: two_spin_pre_def)
  with j h(1) h' at(1) have nn: "list_all (\<lambda>x. 0 \<le> x) (new_occs b)"
    by (rule excited_at_nonneg)
  show ?thesis
    using invb nn at j pre1 by (simp add: two_spin_top_def two_spin_pre_def)
qed

lemma two_spin_rank_body:
  assumes top: "two_spin_top w s" and body: "two_spin_body nodes t q_up_neg q_dn_neg s = Continue b"
  shows "two_spin_rank w b < two_spin_rank w s"
proof -
  let ?n = "nocc w" and ?B = "nbasis w"
  from two_spin_body_cases [OF body] obtain s1 where
    test: "two_spin_test nodes t q_up_neg q_dn_neg s = Inr s1" and j1: "0 \<le> j_electron s1"
    and ex: "two_spin_excite s1 = Inr b"
    by auto
  have pre: "two_spin_pre w s" and j: "0 \<le> j_electron s"
    and at: "excited_at (old_occs s) (j_electron s) (reset_bound w (j_electron s)) (new_occs s)"
    using top by (simp_all add: two_spin_top_def)
  then have inv: "two_spin_inv w s" by (simp add: two_spin_pre_def)
  note sys = two_spin_pre_system [OF pre]
  have pre1: "two_spin_pre w s1" using pre test by (rule two_spin_pre_test)
  note sys1 = two_spin_pre_system [OF pre1]
  have b: "old_occs b = new_occs s1" "j_electron b = j_electron s1"
    using two_spin_excite_at(2,3) [of s1 b] j1 sys1 ex by simp_all
  from two_spin_test_outcome [OF test] show ?thesis
  proof (elim disjE exE conjE)
    assume "s1 = reject s"
    then have "new_occs s1 = old_occs s" "j_electron s1 = j_electron s - 1"
      by (simp_all add: reject_def)
    with b j show ?thesis by (simp add: two_spin_rank_def)
  next
    fix lu ld
    assume l: "getitem (new_occs s) (int (nocc_up (wfn s)) - 1) = Inr lu"
      "getitem (new_occs s) (int (nocc (wfn s)) - 1) = Inr ld"
      "max lu ld < int (nbasis (wfn s))"
      and s1: "new_occs s1 = new_occs s" "j_electron s1 = int (nocc (wfn s)) - 1"
    note h = reset_bound_range [OF j sys(7)]
    have h': "reset_bound w (j_electron s) \<le> int (length (old_occs s))" using h(2) sys(6) by simp
    note spec = excited_at_spec [OF j h(1) h' at]
    have nj: "nat (j_electron s) < length (old_occs s)" using j sys by simp
    have last: "\<forall>x\<in>set (new_occs s). x \<le> max lu ld"
      using two_spin_inv_check [OF inv l(1,2)] by simp
    have "new_occs s ! nat (j_electron s) \<in> set (new_occs s)"
      using nj sys by simp
    with last l(3) sys have le: "new_occs s ! nat (j_electron s) \<le> int ?B" by fastforce
    have "occs_rank ?B (new_occs s) < occs_rank ?B (old_occs s)"
    proof (rule occs_rank_less [where j = "nat (j_electron s)"])
      show "length (new_occs s) = length (old_occs s)" using sys by simp
      show "nat (j_electron s) < length (old_occs s)" by (rule nj)
      show "\<forall>i<nat (j_electron s). new_occs s ! i = old_occs s ! i"
      proof (intro allI impI)
        fix i assume "i < nat (j_electron s)"
        then have "int i < j_electron s" "i < length (old_occs s)" using nj by simp_all
        with spec(2) show "new_occs s ! i = old_occs s ! i" by simp
      qed
      show "new_occs s ! nat (j_electron s) = old_occs s ! nat (j_electron s) + 1"
        using spec(2) nj j h(1) by simp
      show "new_occs s ! nat (j_electron s) \<le> int ?B" by (rule le)
      show "list_all (\<lambda>y. 0 \<le> y) (new_occs s)" using pre by (simp add: two_spin_pre_def)
    qed
    then have "Suc (occs_rank ?B (new_occs s)) \<le> occs_rank ?B (old_occs s)" by simp
    then have "Suc (occs_rank ?B (new_occs s)) * (?n + 1) \<le> occs_rank ?B (old_occs s) * (?n + 1)"
      by (rule mult_le_mono1)
    moreover have "nat (j_electron b + 1) \<le> ?n"
      using b s1 sys by simp
    ultimately show ?thesis
      using b s1 by (simp add: two_spin_rank_def)
  qed
qed

lemma two_spin_pre_init: "two_spin_pre w (two_spin_init w)"
  using two_spin_inv_init [of w]
  by (auto simp: two_spin_pre_def two_spin_init_def list_all_iff)

lemma odometer_two_spin_terminates:
  "\<exists>fuel r. odometer_two_spin fuel w nodes t p = Some r"
proof (cases "threshold nodes t p (take (nocc_up w) (new_occs (two_spin_init w)))")
  case (Inl e)
  then show ?thesis by (simp add: odometer_two_spin_def)
next
  case up: (Inr q_up_neg)
  show ?thesis
  proof (cases "threshold nodes t p (drop (nocc_up w) (new_occs (two_spin_init w)))")
    case (Inl e)
    with up show ?thesis by (simp add: odometer_two_spin_def)
  next
    case dn: (Inr q_dn_neg)
    let ?body = "two_spin_body nodes t q_up_neg q_dn_neg"
    have "\<exists>fuel r. while_true ?body fuel (two_spin_init w) = Some r"
    proof (cases "?body (two_spin_init w)")
      case (Continue b)
      have "two_spin_top w b"
        using two_spin_pre_init Continue by (rule two_spin_pre_body)
      then have "\<exists>r. while_true ?body (Suc (two_spin_rank w b)) b = Some r"
      proof (rule while_true_terminates)
        fix a c assume a: "two_spin_top w a" "?body a = Continue c"
        then have "two_spin_pre w a" by (simp add: two_spin_top_def)
        with a show "two_spin_top w c \<and> two_spin_rank w c < two_spin_rank w a"
          using two_spin_pre_body two_spin_rank_body by blast
      qed
      then obtain r where "while_true ?body (Suc (two_spin_rank w b)) b = Some r" by (elim exE)
      with Continue have "while_true ?body (Suc (Suc (two_spin_rank w b))) (two_spin_init w) = Some r"
        by simp
      then show ?thesis by (intro exI)
    next
      case (Break b)
      then have "while_true ?body (Suc 0) (two_spin_init w) = Some (b, None)" by simp
      then show ?thesis by (intro exI)
    next
      case (Raised e b)
      then have "while_true ?body (Suc 0) (two_spin_init w) = Some (b, Some e)" by simp
      then show ?thesis by (intro exI)
    qed
    then obtain fuel r where r: "while_true ?body fuel (two_spin_init w) = Some r" by (elim exE)
    obtain s e where "r = (s, e)" by (cases r)
    with r up dn have "odometer_two_spin fuel w nodes t p = Some (wfn s, e)"
      by (simp add: odometer_two_spin_def)
    then show ?thesis by (intro exI)
  qed
qed

lemma add_gkci_terminates: "\<exists>fuel r. add_gkci fuel w t p md node_dim = Some r"
proof (cases "construct_nodes w md node_dim")
  case (Inl e)
  then show ?thesis by (simp add: add_gkci_def)
next
  case (Inr nodes0)
  obtain f1 r1 where 1: "odometer_one_spin f1 w (take (nbasis w) nodes0) t p = Some r1"
    using odometer_one_spin_terminates by blast
  obtain f2 r2 where 2: "odometer_two_spin f2 w (take (nbasis w) nodes0) t p = Some r2"
    using odometer_two_spin_terminates by blast
  show ?thesis
  proof (cases "kind w = Doci \<or> kind w = Genci")
    case True
    with Inr 1 have "add_gkci f1 w t p md node_dim = Some r1"
      by (simp add: add_gkci_def)
    then show ?thesis by (intro exI)
  next
    case False
    show ?thesis
    proof (cases "kind w = Fullci")
      case True
      with Inr 2 have "add_gkci f2 w t p md node_dim = Some r2"
        by (auto simp: add_gkci_def)
      then show ?thesis by (intro exI)
    next
      case nf: False
      with False Inr show ?thesis by (simp add: add_gkci_def)
    qed
  qed
qed

lemma odometer_one_spin_fuel:
  assumes "odometer_one_spin f w nodes t p = Some r" and "f \<le> f'"
  shows "odometer_one_spin f' w nodes t p = Some r"
proof (cases "threshold nodes t p (new_occs (one_spin_init w))")
  case (Inl e)
  with assms show ?thesis by (simp add: odometer_one_spin_def)
next
  case (Inr q)
  with assms(1) obtain x where
    x: "while_true (one_spin_body nodes t q) f (one_spin_init w) = Some x"
    by (auto simp: odometer_one_spin_def split: option.splits)
  from while_true_fuel_mono [OF x assms(2)] x assms(1) Inr show ?thesis
    by (simp add: odometer_one_spin_def)
qed

lemma odometer_two_spin_fuel:
  assumes "odometer_two_spin f w nodes t p = Some r" and "f \<le> f'"
  shows "odometer_two_spin f' w nodes t p = Some r"
proof (cases "threshold nodes t p (take (nocc_up w) (new_occs (two_spin_init w)))")
  case (Inl e)
  with assms show ?thesis by (simp add: odometer_two_spin_def)
next
  case up: (Inr q_up)
  show ?thesis
  proof (cases "threshold nodes t p (drop (nocc_up w) (new_occs (two_spin_init w)))")
    case (Inl e)
    with assms up show ?thesis by (simp add: odometer_two_spin_def)
  next
    case dn: (Inr q_dn)
    with assms(1) up obtain x where
      x: "while_true (two_spin_body nodes t q_up q_dn) f (two_spin_init w) = Some x"
      by (auto simp: odometer_two_spin_def split: option.splits)
    from while_true_fuel_mono [OF x assms(2)] x assms(1) up dn show ?thesis
      by (simp add: odometer_two_spin_def)
  qed
qed

subsection \<open>The odometer inserts only determinants below the threshold\<close>

text \<open>
  C1. Whatever the wave function, the node table and the parameters \<open>t\<close> and \<open>p\<close>, each
  odometer selector ends (by \<^verbatim>\<open>break\<close> or by an exception); when it has ended, the wave
  function is the one it was given followed by the arrays inserted, and every array
  inserted has a cost \<open>sum(nodes[occs]) + t * max(nodes[occs])\<close> strictly below the
  threshold \<open>sum(nodes[aufbau][:-1]) * p + (t + 1) * nodes[-1] * p\<close> of the aufbau
  occupation; in the two-spin selector this holds for the spin-up and for the spin-down
  channel.
\<close>

theorem odometer_inserts_below_threshold:
  "(\<exists>fuel r. odometer_one_spin fuel w nodes t p = Some r)
   \<and> (\<exists>fuel r. odometer_two_spin fuel w nodes t p = Some r)
   \<and> (odometer_one_spin fuel w nodes t p = Some (w', e)
      \<longrightarrow> inserted_only (below_threshold_one nodes t p w) w w')
   \<and> (odometer_two_spin fuel w nodes t p = Some (w', e)
      \<longrightarrow> inserted_only (below_threshold_two nodes t p w) w w')"
  using odometer_one_spin_terminates [of w nodes t p] odometer_two_spin_terminates [of w nodes t p]
    odometer_one_spin_inserted [of fuel w nodes t p w' e]
    odometer_two_spin_inserted [of fuel w nodes t p w' e]
  by (intro conjI impI)

theorem odometer_inserts_below_threshold_witness:
  "odometer_one_spin 5 \<lparr>kind = Doci, nbasis = 3, nocc_up = 1, nocc_dn = 1, dets = []\<rparr> [5, 0, 10] 0 1
     = Some (\<lparr>kind = Doci, nbasis = 3, nocc_up = 1, nocc_dn = 1,
               dets = [Occs1 [0], Occs1 [1]]\<rparr>, None)
   \<and> inserted_only
       (below_threshold_one [5, 0, 10] 0 1
          \<lparr>kind = Doci, nbasis = 3, nocc_up = 1, nocc_dn = 1, dets = []\<rparr>)
       \<lparr>kind = Doci, nbasis = 3, nocc_up = 1, nocc_dn = 1, dets = []\<rparr>
       \<lparr>kind = Doci, nbasis = 3, nocc_up = 1, nocc_dn = 1, dets = [Occs1 [0], Occs1 [1]]\<rparr>
   \<and> odometer_two_spin 10 \<lparr>kind = Fullci, nbasis = 3, nocc_up = 1, nocc_dn = 1, dets = []\<rparr>
       [0, 0, 5] 0 2
     = Some (\<lparr>kind = Fullci, nbasis = 3, nocc_up = 1, nocc_dn = 1,
               dets = [Occs2 [[0], [0]], Occs2 [[0], [1]], Occs2 [[0], [2]],
                       Occs2 [[1], [2]], Occs2 [[2], [2]]]\<rparr>, None)
   \<and> inserted_only
       (below_threshold_two [0, 0, 5] 0 2
          \<lparr>kind = Fullci, nbasis = 3, nocc_up = 1, nocc_dn = 1, dets = []\<rparr>)
       \<lparr>kind = Fullci, nbasis = 3, nocc_up = 1, nocc_dn = 1, dets = []\<rparr>
       \<lparr>kind = Fullci, nbasis = 3, nocc_up = 1, nocc_dn = 1,
          dets = [Occs2 [[0], [0]], Occs2 [[0], [1]], Occs2 [[0], [2]],
                  Occs2 [[1], [2]], Occs2 [[2], [2]]]\<rparr>"
proof -
  have one: "odometer_one_spin 5 \<lparr>kind = Doci, nbasis = 3, nocc_up = 1, nocc_dn = 1, dets = []\<rparr>
       [5, 0, 10] 0 1
     = Some (\<lparr>kind = Doci, nbasis = 3, nocc_up = 1, nocc_dn = 1,
               dets = [Occs1 [0], Occs1 [1]]\<rparr>, None)"
    by code_simp
  have two: "odometer_two_spin 10 \<lparr>kind = Fullci, nbasis = 3, nocc_up = 1, nocc_dn = 1, dets = []\<rparr>
       [0, 0, 5] 0 2
     = Some (\<lparr>kind = Fullci, nbasis = 3, nocc_up = 1, nocc_dn = 1,
               dets = [Occs2 [[0], [0]], Occs2 [[0], [1]], Occs2 [[0], [2]],
                       Occs2 [[1], [2]], Occs2 [[2], [2]]]\<rparr>, None)"
    by code_simp
  have a: "inserted_only
       (below_threshold_one [5, 0, 10] 0 1
          \<lparr>kind = Doci, nbasis = 3, nocc_up = 1, nocc_dn = 1, dets = []\<rparr>)
       \<lparr>kind = Doci, nbasis = 3, nocc_up = 1, nocc_dn = 1, dets = []\<rparr>
       \<lparr>kind = Doci, nbasis = 3, nocc_up = 1, nocc_dn = 1, dets = [Occs1 [0], Occs1 [1]]\<rparr>"
    by (rule mp [OF conjunct1 [OF conjunct2 [OF conjunct2 [OF odometer_inserts_below_threshold]]] one])
  have b: "inserted_only
       (below_threshold_two [0, 0, 5] 0 2
          \<lparr>kind = Fullci, nbasis = 3, nocc_up = 1, nocc_dn = 1, dets = []\<rparr>)
       \<lparr>kind = Fullci, nbasis = 3, nocc_up = 1, nocc_dn = 1, dets = []\<rparr>
       \<lparr>kind = Fullci, nbasis = 3, nocc_up = 1, nocc_dn = 1,
          dets = [Occs2 [[0], [0]], Occs2 [[0], [1]], Occs2 [[0], [2]],
                  Occs2 [[1], [2]], Occs2 [[2], [2]]]\<rparr>"
    by (rule mp [OF conjunct2 [OF conjunct2 [OF conjunct2 [OF odometer_inserts_below_threshold]]] two])
  from one two a b show ?thesis
    by (intro conjI)
qed

subsection \<open>An explicit cost sequence makes node_dim irrelevant\<close>

text \<open>
  C10. When \<open>mode\<close> is an explicit cost sequence, \<open>add_gkci\<close> never looks at
  \<open>node_dim\<close>: the node table is the sequence given, whatever \<open>node_dim\<close> is (absent or
  any number), so no error about \<open>node_dim\<close> is raised, and two calls that differ only
  in \<open>node_dim\<close> have the same outcome, the same arrays inserted in the same order.
  The call ends, whatever the arguments.
\<close>

theorem add_gkci_ignores_node_dim:
  "construct_nodes w (Mode_nodes nodes) node_dim = Inr nodes
   \<and> add_gkci fuel w t p (Mode_nodes nodes) node_dim
       = add_gkci fuel w t p (Mode_nodes nodes) node_dim'
   \<and> (\<exists>fuel r. add_gkci fuel w t p (Mode_nodes nodes) node_dim = Some r)"
  using add_gkci_terminates [of w t p "Mode_nodes nodes" node_dim]
  by (simp add: add_gkci_def construct_nodes_def)

end
